theory Spec2Isabelle
  imports Main "HOL-Library.AList"
begin

section \<open>The buffer manager of BadgerDB (src/src/buffer.cpp)\<close>

text \<open>
  The manager keeps a pool of \<open>numBufs\<close> frames. Each frame has a descriptor
  (\<open>bufDescTable\<close>) and a page slot (\<open>bufPool\<close>); a hash table maps a
  (file, page number) pair to the frame that caches it; the clock hand walks the
  frames to find one to reuse. Every member function of \<open>BufMgr\<close> is a function from
  the state to a result and the state after the call. An exception is a result
  \<open>Inl e\<close>; the state comes back with it, since what a call did before it threw stays done.
\<close>

subsection \<open>Identities, pages, errors\<close>

type_synonym File = nat
type_synonym PageId = nat
type_synonym FrameId = nat

text \<open>
  Modelled from the spec: the page class is not in buffer.cpp. A page is opaque content with
  an embedded page number (\<open>page.page_number()\<close>).
\<close>

record Page =
  page_number :: PageId
  data :: string

text \<open>Modelled from the spec: the default-constructed page that fills a new pool.\<close>

definition Page_default :: Page where
  "Page_default = \<lparr>page_number = 0, data = []\<rparr>"

text \<open>Modelled from the spec: the default-constructed file handle \<open>File()\<close> that a cleared
  descriptor holds; the owner of a descriptor means something only while it is valid.\<close>

definition File_default :: File where
  "File_default = 0"

text \<open>The exceptions buffer.cpp includes, and the failure of a read of a page that is not
  in the file.\<close>

datatype error =
    BadBuffer
  | BufferExceeded
  | HashNotFound
  | HashAlreadyPresent
  | PageNotPinned
  | PagePinned
  | InvalidPage

subsection \<open>Frame descriptors\<close>

text \<open>
  Modelled from the spec: the declaration of \<open>BufDesc\<close> (buffer.h) is not in buffer.cpp.
  The fields are the ones buffer.cpp reads and writes. \<open>pinCnt\<close> is the spec's unsigned
  count of outstanding holders; its width is not given, and it is a natural number here.
\<close>

record BufDesc =
  fileH :: File
  pageNo :: PageId
  frameNo :: FrameId
  pinCnt :: nat
  dirty :: bool
  valid :: bool
  refbit :: bool

text \<open>Modelled from the spec: \<open>clear()\<close> resets all fields to the invalid state
  (the frame's own index stays).\<close>

definition BufDesc_clear :: "BufDesc \<Rightarrow> BufDesc" where
  "BufDesc_clear d =
     d\<lparr>fileH := File_default, pageNo := 0, pinCnt := 0, dirty := False, valid := False, refbit := False\<rparr>"

text \<open>Modelled from the spec: \<open>Set(file, pageNo)\<close> (the spec's markOccupied) sets
  occupied, referenced, pin count 1, not modified, and records the owner.\<close>

definition BufDesc_Set :: "File \<Rightarrow> PageId \<Rightarrow> BufDesc \<Rightarrow> BufDesc" where
  "BufDesc_Set f p d =
     d\<lparr>fileH := f, pageNo := p, pinCnt := 1, dirty := False, valid := True, refbit := True\<rparr>"

subsection \<open>The page table\<close>

text \<open>
  Modelled from the spec: the hash table class is not in buffer.cpp. It is an association
  list from (file, page number) to the frame. \<open>lookup\<close> fails with NotFound when there is
  no entry, \<open>insert\<close> rejects a key that is already there, \<open>remove\<close> fails with NotFound
  when the key is absent.
\<close>

type_synonym HashTable = "((File \<times> PageId) \<times> FrameId) list"

definition hashTable_lookup :: "HashTable \<Rightarrow> File \<times> PageId \<Rightarrow> error + FrameId" where
  "hashTable_lookup ht k = (case map_of ht k of None \<Rightarrow> Inl HashNotFound | Some fr \<Rightarrow> Inr fr)"

definition hashTable_insert :: "File \<times> PageId \<Rightarrow> FrameId \<Rightarrow> HashTable \<Rightarrow> error + HashTable" where
  "hashTable_insert k fr ht =
     (case map_of ht k of None \<Rightarrow> Inr ((k, fr) # ht) | Some _ \<Rightarrow> Inl HashAlreadyPresent)"

definition hashTable_remove :: "File \<times> PageId \<Rightarrow> HashTable \<Rightarrow> error + HashTable" where
  "hashTable_remove k ht =
     (case map_of ht k of None \<Rightarrow> Inl HashNotFound | Some _ \<Rightarrow> Inr (AList.delete k ht))"

subsection \<open>The state: the manager and the files behind it\<close>

text \<open>What the file layer was asked to do, in order.\<close>

datatype io_event =
    IoRead File PageId
  | IoWrite File Page
  | IoAllocate File PageId
  | IoDelete File PageId

text \<open>
  The first five fields are the members of \<open>BufMgr\<close>. \<open>disk\<close> and \<open>iolog\<close> are the
  files the manager reads and writes: the content stored for each page of each file, and
  the calls made to the file layer so far.
\<close>

record BufMgr =
  numBufs :: nat
  clockHand :: FrameId
  hashTable :: HashTable
  bufDescTable :: "BufDesc list"
  bufPool :: "Page list"
  disk :: "((File \<times> PageId) \<times> string) list"
  iolog :: "io_event list"

subsection \<open>The file layer\<close>

text \<open>
  Modelled from the spec: the file class is not in buffer.cpp. \<open>readPage\<close> fails if the
  page does not exist in the file; \<open>writePage\<close> persists content at its embedded page
  number; \<open>allocatePage\<close> creates a page with a freshly assigned number; \<open>deletePage\<close>
  removes a page and is safe to repeat.
\<close>

definition File_readPage :: "File \<Rightarrow> PageId \<Rightarrow> BufMgr \<Rightarrow> (error + Page) \<times> BufMgr" where
  "File_readPage f n s =
     (case map_of (disk s) (f, n) of
        None \<Rightarrow> (Inl InvalidPage, s)
      | Some d \<Rightarrow> (Inr \<lparr>page_number = n, data = d\<rparr>, s\<lparr>iolog := iolog s @ [IoRead f n]\<rparr>))"

definition File_writePage :: "File \<Rightarrow> Page \<Rightarrow> BufMgr \<Rightarrow> BufMgr" where
  "File_writePage f pg s =
     s\<lparr>disk := AList.update (f, page_number pg) (data pg) (disk s),
       iolog := iolog s @ [IoWrite f pg]\<rparr>"

definition fresh_page_number :: "File \<Rightarrow> ((File \<times> PageId) \<times> string) list \<Rightarrow> PageId" where
  "fresh_page_number f dk = Suc (fold max (map snd (filter (\<lambda>k. fst k = f) (map fst dk))) 0)"

definition File_allocatePage :: "File \<Rightarrow> BufMgr \<Rightarrow> Page \<times> BufMgr" where
  "File_allocatePage f s =
     (let n = fresh_page_number f (disk s)
      in (\<lparr>page_number = n, data = []\<rparr>,
          s\<lparr>disk := AList.update (f, n) [] (disk s), iolog := iolog s @ [IoAllocate f n]\<rparr>))"

definition File_deletePage :: "File \<Rightarrow> PageId \<Rightarrow> BufMgr \<Rightarrow> BufMgr" where
  "File_deletePage f n s =
     s\<lparr>disk := AList.delete (f, n) (disk s), iolog := iolog s @ [IoDelete f n]\<rparr>"

subsection \<open>Construction\<close>

text \<open>
  \<open>BufMgr::BufMgr(bufs)\<close>, on the files \<open>dk\<close>. Every descriptor starts cleared with its own
  index, every slot holds the default page. The clock hand is \<open>bufs - 1\<close> in 32-bit
  unsigned arithmetic, so it wraps for \<open>bufs = 0\<close>. The bucket count of the hash table
  (\<open>HASHTABLE_SZ\<close>) does not show in its behaviour and is left out.
\<close>

definition BufDesc_init :: "FrameId \<Rightarrow> BufDesc" where
  "BufDesc_init i =
     \<lparr>fileH = File_default, pageNo = 0, frameNo = i, pinCnt = 0, dirty = False, valid = False, refbit = False\<rparr>"

definition BufMgr_new :: "nat \<Rightarrow> ((File \<times> PageId) \<times> string) list \<Rightarrow> BufMgr" where
  "BufMgr_new bufs dk =
     \<lparr>numBufs = bufs,
      clockHand = (bufs + 2 ^ 32 - 1) mod 2 ^ 32,
      hashTable = [],
      bufDescTable = map BufDesc_init [0..<bufs],
      bufPool = replicate bufs Page_default,
      disk = dk,
      iolog = []\<rparr>"

subsection \<open>The clock\<close>

text \<open>\<open>advanceClock\<close>: the sum is 32-bit unsigned. \<open>allocBuf\<close> calls it only after its
  bound check, which fails at once when \<open>numBufs\<close> is 0, so the modulus is never 0.\<close>

definition advanceClock :: "BufMgr \<Rightarrow> BufMgr" where
  "advanceClock s = s\<lparr>clockHand := ((clockHand s + 1) mod 2 ^ 32) mod numBufs s\<rparr>"

text \<open>
  The loop of \<open>allocBuf\<close>, from the value \<open>count\<close> has at the top of the loop.
  \<open>numBufs * 2\<close> is 32-bit unsigned. \<open>count\<close> never passes \<open>numBufs * 2 + 1\<close>, so
  it does not wrap. The removal from the hash table is not inside a try block: when the
  victim's key is absent, NotFound leaves \<open>allocBuf\<close> after the write-back and the clear.
\<close>

function allocBuf_loop :: "nat \<Rightarrow> BufMgr \<Rightarrow> (error + FrameId) \<times> BufMgr" where
  "allocBuf_loop count s =
     (if count > (numBufs s * 2) mod 2 ^ 32 then (Inl BufferExceeded, s)
      else
        let s1 = advanceClock s;
            h = clockHand s1;
            desc = bufDescTable s1 ! h;
            f = fileH desc;
            page = bufPool s1 ! h
        in if valid desc then
             (if \<not> refbit desc then
                (if pinCnt desc = 0 then
                   (let s2 = (if dirty desc then File_writePage f page s1 else s1);
                        s3 = s2\<lparr>bufDescTable := (bufDescTable s2)[h := BufDesc_clear desc]\<rparr>
                    in case hashTable_remove (f, page_number page) (hashTable s3) of
                         Inl e \<Rightarrow> (Inl e, s3)
                       | Inr ht \<Rightarrow> (Inr h, s3\<lparr>hashTable := ht\<rparr>))
                 else allocBuf_loop (count + 1) s1)
              else allocBuf_loop (count + 1)
                     (s1\<lparr>bufDescTable := (bufDescTable s1)[h := desc\<lparr>refbit := False\<rparr>]\<rparr>))
           else (Inr h, s1))"
  by pat_completeness auto
termination
  by (relation "measure (\<lambda>(count, s). (numBufs s * 2) mod 2 ^ 32 + 1 - count)")
     (auto simp: advanceClock_def)

definition allocBuf :: "BufMgr \<Rightarrow> (error + FrameId) \<times> BufMgr" where
  "allocBuf s = allocBuf_loop 1 s"

subsection \<open>The public operations\<close>

text \<open>
  \<open>readPage\<close> (the spec's fetch). The result is the frame whose slot the returned
  pointer addresses. Only the lookup sits in the try block; an exception of \<open>allocBuf\<close>,
  of the file or of the insertion leaves the call.
\<close>

definition readPage :: "File \<Rightarrow> PageId \<Rightarrow> BufMgr \<Rightarrow> (error + FrameId) \<times> BufMgr" where
  "readPage f pn s =
     (case hashTable_lookup (hashTable s) (f, pn) of
        Inr fr \<Rightarrow>
          (let desc = bufDescTable s ! fr
           in (Inr fr,
               s\<lparr>bufDescTable := (bufDescTable s)[fr := desc\<lparr>refbit := True, pinCnt := pinCnt desc + 1\<rparr>]\<rparr>))
      | Inl _ \<Rightarrow>
          (case allocBuf s of
             (Inl e, s1) \<Rightarrow> (Inl e, s1)
           | (Inr fr, s1) \<Rightarrow>
               (case File_readPage f pn s1 of
                  (Inl e, s2) \<Rightarrow> (Inl e, s2)
                | (Inr pg, s2) \<Rightarrow>
                    (let s3 = s2\<lparr>bufPool := (bufPool s2)[fr := pg]\<rparr>
                     in case hashTable_insert (f, pn) fr (hashTable s3) of
                          Inl e \<Rightarrow> (Inl e, s3)
                        | Inr ht \<Rightarrow>
                            (let s4 = s3\<lparr>hashTable := ht\<rparr>
                             in (Inr fr,
                                 s4\<lparr>bufDescTable :=
                                      (bufDescTable s4)[fr := BufDesc_Set f pn (bufDescTable s4 ! fr)]\<rparr>))))))"

text \<open>\<open>unPinPage\<close> (the spec's release). The lookup is not inside a try block.\<close>

definition unPinPage :: "File \<Rightarrow> PageId \<Rightarrow> bool \<Rightarrow> BufMgr \<Rightarrow> (error + unit) \<times> BufMgr" where
  "unPinPage f pn dty s =
     (case hashTable_lookup (hashTable s) (f, pn) of
        Inl e \<Rightarrow> (Inl e, s)
      | Inr fr \<Rightarrow>
          (let desc = bufDescTable s ! fr
           in if pinCnt desc = 0 then (Inl PageNotPinned, s)
              else
                (let d1 = (if dty then desc\<lparr>dirty := dty\<rparr> else desc);
                     d2 = d1\<lparr>pinCnt := pinCnt d1 - 1\<rparr>
                 in (Inr (), s\<lparr>bufDescTable := (bufDescTable s)[fr := d2]\<rparr>))))"

text \<open>\<open>allocPage\<close> (the spec's allocate): the new page number and the frame.\<close>

definition allocPage :: "File \<Rightarrow> BufMgr \<Rightarrow> (error + PageId \<times> FrameId) \<times> BufMgr" where
  "allocPage f s =
     (case File_allocatePage f s of
        (newPage, s0) \<Rightarrow>
          (let pn = page_number newPage
           in case allocBuf s0 of
                (Inl e, s1) \<Rightarrow> (Inl e, s1)
              | (Inr fr, s1) \<Rightarrow>
                  (let s2 = s1\<lparr>bufPool := (bufPool s1)[fr := newPage]\<rparr>
                   in case hashTable_insert (f, pn) fr (hashTable s2) of
                        Inl e \<Rightarrow> (Inl e, s2)
                      | Inr ht \<Rightarrow>
                          (let s3 = s2\<lparr>hashTable := ht\<rparr>
                           in (Inr (pn, fr),
                               s3\<lparr>bufDescTable :=
                                    (bufDescTable s3)[fr := BufDesc_Set f pn (bufDescTable s3 ! fr)]\<rparr>)))))"

text \<open>
  The loop of \<open>flushFile\<close>, from frame \<open>i\<close>. The owner of the frame is not looked at: the
  write and the removal both go through the file of the call. NotFound of the removal is
  caught and dropped.
\<close>

function flushFile_loop :: "File \<Rightarrow> FrameId \<Rightarrow> BufMgr \<Rightarrow> (error + unit) \<times> BufMgr" where
  "flushFile_loop f i s =
     (if i < numBufs s then
        (let desc = bufDescTable s ! i;
             page = bufPool s ! i
         in if pinCnt desc \<noteq> 0 then (Inl PagePinned, s)
            else if \<not> valid desc then (Inl BadBuffer, s)
            else
              (let s1 = (if dirty desc then File_writePage f page s else s);
                   s2 = (case hashTable_remove (f, page_number page) (hashTable s1) of
                           Inl _ \<Rightarrow> s1
                         | Inr ht \<Rightarrow> s1\<lparr>hashTable := ht\<rparr>);
                   s3 = s2\<lparr>bufDescTable := (bufDescTable s2)[i := BufDesc_clear desc]\<rparr>
               in flushFile_loop f (i + 1) s3))
      else (Inr (), s))"
  by pat_completeness auto
termination
  by (relation "measure (\<lambda>(f, i, s). numBufs s - i)")
     (auto simp: File_writePage_def split: sum.splits)

definition flushFile :: "File \<Rightarrow> BufMgr \<Rightarrow> (error + unit) \<times> BufMgr" where
  "flushFile f s = flushFile_loop f 0 s"

text \<open>\<open>disposePage\<close>: NotFound of the lookup skips the clear and the removal; the page
  is deleted from the file in either case.\<close>

definition disposePage :: "File \<Rightarrow> PageId \<Rightarrow> BufMgr \<Rightarrow> (error + unit) \<times> BufMgr" where
  "disposePage f pn s =
     (let s1 = (case hashTable_lookup (hashTable s) (f, pn) of
                  Inl _ \<Rightarrow> s
                | Inr fr \<Rightarrow>
                    (let s' = s\<lparr>bufDescTable := (bufDescTable s)[fr := BufDesc_clear (bufDescTable s ! fr)]\<rparr>
                     in case hashTable_remove (f, pn) (hashTable s') of
                          Inl _ \<Rightarrow> s'
                        | Inr ht \<Rightarrow> s'\<lparr>hashTable := ht\<rparr>))
      in (Inr (), File_deletePage f pn s1))"

subsection \<open>Names for the parts of one round of the eviction search\<close>

text \<open>
  One round of the loop of \<open>allocBuf\<close> advances the clock and looks at the descriptor under
  the hand. \<open>second_chance\<close> is the state after a round that found the reference bit set;
  \<open>written_cleared\<close> is the state after the write-back and the clear of a round that found
  a victim, before the removal from the page table.
\<close>

abbreviation hand :: "BufMgr \<Rightarrow> FrameId" where
  "hand s \<equiv> clockHand (advanceClock s)"

abbreviation inspected :: "BufMgr \<Rightarrow> BufDesc" where
  "inspected s \<equiv> bufDescTable s ! hand s"

definition second_chance :: "BufMgr \<Rightarrow> BufMgr" where
  "second_chance s =
     (advanceClock s)\<lparr>bufDescTable := (bufDescTable s)[hand s := (inspected s)\<lparr>refbit := False\<rparr>]\<rparr>"

definition written_cleared :: "BufMgr \<Rightarrow> BufMgr" where
  "written_cleared s =
     (if dirty (inspected s)
      then File_writePage (fileH (inspected s)) (bufPool s ! hand s) (advanceClock s)
      else advanceClock s)\<lparr>bufDescTable := (bufDescTable s)[hand s := BufDesc_clear (inspected s)]\<rparr>"

text \<open>
  How far the search is from a frame \<open>j\<close>: \<open>clock_dist\<close> counts the rounds that come before
  the round that inspects \<open>j\<close>; \<open>rounds_needed\<close> bounds the rounds after which a search
  that has not stopped earlier stops at \<open>j\<close>, given that \<open>j\<close> is not valid or unpinned: one
  more turn of the clock when its reference bit is still set.
\<close>

definition clock_dist :: "FrameId \<Rightarrow> BufMgr \<Rightarrow> nat" where
  "clock_dist j s = (if hand s \<le> j then j - hand s else j + numBufs s - hand s)"

definition rounds_needed :: "FrameId \<Rightarrow> BufMgr \<Rightarrow> nat" where
  "rounds_needed j s =
     clock_dist j s + 1 +
     (if valid (bufDescTable s ! j) \<and> refbit (bufDescTable s ! j) then numBufs s else 0)"

text \<open>The body of the loop of \<open>flushFile\<close> for a frame that is unpinned and valid: the
  write when dirty, the removal with NotFound dropped, the clear.\<close>

definition flush_frame :: "File \<Rightarrow> FrameId \<Rightarrow> BufMgr \<Rightarrow> BufMgr" where
  "flush_frame f i s =
     (let desc = bufDescTable s ! i;
          page = bufPool s ! i;
          s1 = (if dirty desc then File_writePage f page s else s);
          s2 = (case hashTable_remove (f, page_number page) (hashTable s1) of
                  Inl _ \<Rightarrow> s1
                | Inr ht \<Rightarrow> s1\<lparr>hashTable := ht\<rparr>)
      in s2\<lparr>bufDescTable := (bufDescTable s2)[i := BufDesc_clear desc]\<rparr>)"

subsection \<open>Sequences of calls\<close>

text \<open>
  A caller's request, and the state the manager is in after serving it, whether the call
  returned or threw. The states of \<open>reachable\<close> are the ones a new manager gets into by
  a sequence of requests.
\<close>

datatype request =
    Fetch File PageId
  | Release File PageId bool
  | Allocate File
  | Flush File
  | Dispose File PageId

fun serve :: "request \<Rightarrow> BufMgr \<Rightarrow> BufMgr" where
  "serve (Fetch f pn) s = snd (readPage f pn s)"
| "serve (Release f pn dty) s = snd (unPinPage f pn dty s)"
| "serve (Allocate f) s = snd (allocPage f s)"
| "serve (Flush f) s = snd (flushFile f s)"
| "serve (Dispose f pn) s = snd (disposePage f pn s)"

definition reachable :: "nat \<Rightarrow> ((File \<times> PageId) \<times> string) list \<Rightarrow> request list \<Rightarrow> BufMgr" where
  "reachable bufs dk rs = fold serve rs (BufMgr_new bufs dk)"

subsection \<open>Well-formed states\<close>

text \<open>
  The two tables have one entry per frame, the page table only names frames of the pool,
  and it has at most one entry for a key. The constructor establishes this and every
  operation keeps it, whether it returns or throws, so the indexing of the operations
  above stays inside the tables.
\<close>

definition wf_BufMgr :: "BufMgr \<Rightarrow> bool" where
  "wf_BufMgr s \<longleftrightarrow>
     length (bufDescTable s) = numBufs s \<and> length (bufPool s) = numBufs s \<and>
     list_all (\<lambda>kv. snd kv < numBufs s) (hashTable s) \<and>
     distinct (map fst (hashTable s))"

text \<open>
  What \<open>flushFile\<close> for file \<open>f\<close> has done to \<open>s\<close> once it has processed the frames
  \<open>i..<k\<close>: these descriptors are cleared and the others are as before, the dirty ones among
  them were written through \<open>f\<close> in frame order, the keys \<open>(f, page number)\<close> of their pages
  are gone from the page table, and the entries of other files are untouched.
\<close>

definition flushed :: "File \<Rightarrow> FrameId \<Rightarrow> FrameId \<Rightarrow> BufMgr \<Rightarrow> BufMgr \<Rightarrow> bool" where
  "flushed f i k s s' \<longleftrightarrow>
     numBufs s' = numBufs s \<and> clockHand s' = clockHand s \<and> bufPool s' = bufPool s \<and>
     length (bufDescTable s') = length (bufDescTable s) \<and>
     (\<forall>j. i \<le> j \<and> j < k \<longrightarrow> bufDescTable s' ! j = BufDesc_clear (bufDescTable s ! j)) \<and>
     (\<forall>j. \<not> (i \<le> j \<and> j < k) \<longrightarrow> bufDescTable s' ! j = bufDescTable s ! j) \<and>
     iolog s' = iolog s @ map (\<lambda>j. IoWrite f (bufPool s ! j))
                            (filter (\<lambda>j. dirty (bufDescTable s ! j)) [i..<k]) \<and>
     (\<forall>g p. g \<noteq> f \<longrightarrow> map_of (hashTable s') (g, p) = map_of (hashTable s) (g, p)) \<and>
     (\<forall>key. map_of (hashTable s) key = None \<longrightarrow> map_of (hashTable s') key = None) \<and>
     (\<forall>j. i \<le> j \<and> j < k \<longrightarrow> map_of (hashTable s') (f, page_number (bufPool s ! j)) = None)"

subsection \<open>Example files and states\<close>

text \<open>Two files, 1 and 2, with a few pages each.\<close>

definition ex_disk :: "((File \<times> PageId) \<times> string) list" where
  "ex_disk = [((1, 1), ''a''), ((2, 1), ''b''), ((2, 7), ''c''), ((2, 8), ''d''), ((2, 9), ''e'')]"

text \<open>A pool of two frames after \<open>readPage 2 1\<close>: page 1 of file 2 sits pinned in frame 0.\<close>

definition ex_pinned :: BufMgr where
  "ex_pinned =
     \<lparr>numBufs = 2, clockHand = 0, hashTable = [((2, 1), 0)],
      bufDescTable =
        [\<lparr>fileH = 2, pageNo = 1, frameNo = 0, pinCnt = 1, dirty = False, valid = True, refbit = True\<rparr>,
         BufDesc_init 1],
      bufPool = [\<lparr>page_number = 1, data = ''b''\<rparr>, Page_default],
      disk = ex_disk, iolog = [IoRead 2 1]\<rparr>"

text \<open>The same pool after \<open>unPinPage 2 1 true\<close>: the page is unpinned and dirty.\<close>

definition ex_released :: BufMgr where
  "ex_released =
     \<lparr>numBufs = 2, clockHand = 0, hashTable = [((2, 1), 0)],
      bufDescTable =
        [\<lparr>fileH = 2, pageNo = 1, frameNo = 0, pinCnt = 0, dirty = True, valid = True, refbit = True\<rparr>,
         BufDesc_init 1],
      bufPool = [\<lparr>page_number = 1, data = ''b''\<rparr>, Page_default],
      disk = ex_disk, iolog = [IoRead 2 1]\<rparr>"

text \<open>After \<open>readPage 2 7\<close> on top of that: both frames are occupied, frame 0 holds the
  unpinned dirty page 1, frame 1 holds the pinned page 7.\<close>

definition ex_full :: BufMgr where
  "ex_full =
     \<lparr>numBufs = 2, clockHand = 1, hashTable = [((2, 7), 1), ((2, 1), 0)],
      bufDescTable =
        [\<lparr>fileH = 2, pageNo = 1, frameNo = 0, pinCnt = 0, dirty = True, valid = True, refbit = True\<rparr>,
         \<lparr>fileH = 2, pageNo = 7, frameNo = 1, pinCnt = 1, dirty = False, valid = True, refbit = True\<rparr>],
      bufPool = [\<lparr>page_number = 1, data = ''b''\<rparr>, \<lparr>page_number = 7, data = ''c''\<rparr>],
      disk = ex_disk, iolog = [IoRead 2 1, IoRead 2 7]\<rparr>"

text \<open>What \<open>allocBuf\<close> leaves of it: frame 0 was written back, cleared and taken out of the
  page table; frame 1 lost its reference bit.\<close>

definition ex_victim :: BufMgr where
  "ex_victim =
     \<lparr>numBufs = 2, clockHand = 0, hashTable = [((2, 7), 1)],
      bufDescTable =
        [\<lparr>fileH = 0, pageNo = 0, frameNo = 0, pinCnt = 0, dirty = False, valid = False, refbit = False\<rparr>,
         \<lparr>fileH = 2, pageNo = 7, frameNo = 1, pinCnt = 1, dirty = False, valid = True, refbit = False\<rparr>],
      bufPool = [\<lparr>page_number = 1, data = ''b''\<rparr>, \<lparr>page_number = 7, data = ''c''\<rparr>],
      disk = ex_disk, iolog = [IoRead 2 1, IoRead 2 7, IoWrite 2 \<lparr>page_number = 1, data = ''b''\<rparr>]\<rparr>"

text \<open>And what \<open>readPage 2 8\<close> makes of \<open>ex_full\<close>: page 8 sits in frame 0.\<close>

definition ex_refilled :: BufMgr where
  "ex_refilled =
     \<lparr>numBufs = 2, clockHand = 0, hashTable = [((2, 8), 0), ((2, 7), 1)],
      bufDescTable =
        [\<lparr>fileH = 2, pageNo = 8, frameNo = 0, pinCnt = 1, dirty = False, valid = True, refbit = True\<rparr>,
         \<lparr>fileH = 2, pageNo = 7, frameNo = 1, pinCnt = 1, dirty = False, valid = True, refbit = False\<rparr>],
      bufPool = [\<lparr>page_number = 8, data = ''d''\<rparr>, \<lparr>page_number = 7, data = ''c''\<rparr>],
      disk = ex_disk,
      iolog = [IoRead 2 1, IoRead 2 7, IoWrite 2 \<lparr>page_number = 1, data = ''b''\<rparr>, IoRead 2 8]\<rparr>"

text \<open>\<open>ex_full\<close> after \<open>flushFile 2\<close>, which stops at the pinned frame 1 with PagePinned.\<close>

definition ex_partial :: BufMgr where
  "ex_partial =
     \<lparr>numBufs = 2, clockHand = 1, hashTable = [((2, 7), 1)],
      bufDescTable =
        [\<lparr>fileH = 0, pageNo = 0, frameNo = 0, pinCnt = 0, dirty = False, valid = False, refbit = False\<rparr>,
         \<lparr>fileH = 2, pageNo = 7, frameNo = 1, pinCnt = 1, dirty = False, valid = True, refbit = True\<rparr>],
      bufPool = [\<lparr>page_number = 1, data = ''b''\<rparr>, \<lparr>page_number = 7, data = ''c''\<rparr>],
      disk = ex_disk, iolog = [IoRead 2 1, IoRead 2 7, IoWrite 2 \<lparr>page_number = 1, data = ''b''\<rparr>]\<rparr>"

text \<open>\<open>ex_full\<close> after \<open>flushFile 1\<close>, a flush of the other file, which also stops at the
  pinned frame 1 with PagePinned: frame 0 is cleared, its entry is still in the page table,
  and its content went into file 1.\<close>

definition ex_partial_other :: BufMgr where
  "ex_partial_other =
     \<lparr>numBufs = 2, clockHand = 1, hashTable = [((2, 7), 1), ((2, 1), 0)],
      bufDescTable =
        [\<lparr>fileH = 0, pageNo = 0, frameNo = 0, pinCnt = 0, dirty = False, valid = False, refbit = False\<rparr>,
         \<lparr>fileH = 2, pageNo = 7, frameNo = 1, pinCnt = 1, dirty = False, valid = True, refbit = True\<rparr>],
      bufPool = [\<lparr>page_number = 1, data = ''b''\<rparr>, \<lparr>page_number = 7, data = ''c''\<rparr>],
      disk = [((1, 1), ''b''), ((2, 1), ''b''), ((2, 7), ''c''), ((2, 8), ''d''), ((2, 9), ''e'')],
      iolog = [IoRead 2 1, IoRead 2 7, IoWrite 1 \<lparr>page_number = 1, data = ''b''\<rparr>]\<rparr>"

text \<open>\<open>ex_full\<close> after \<open>unPinPage 2 7 false\<close>: two unpinned pages of file 2, the first one
  dirty.\<close>

definition ex_unpinned :: BufMgr where
  "ex_unpinned =
     \<lparr>numBufs = 2, clockHand = 1, hashTable = [((2, 7), 1), ((2, 1), 0)],
      bufDescTable =
        [\<lparr>fileH = 2, pageNo = 1, frameNo = 0, pinCnt = 0, dirty = True, valid = True, refbit = True\<rparr>,
         \<lparr>fileH = 2, pageNo = 7, frameNo = 1, pinCnt = 0, dirty = False, valid = True, refbit = True\<rparr>],
      bufPool = [\<lparr>page_number = 1, data = ''b''\<rparr>, \<lparr>page_number = 7, data = ''c''\<rparr>],
      disk = ex_disk, iolog = [IoRead 2 1, IoRead 2 7]\<rparr>"

text \<open>And that after \<open>flushFile 1\<close>, a flush of the other file: both descriptors are
  cleared, the page table is as it was, and page 1 of file 1 on disk now has the content of
  page 1 of file 2.\<close>

definition ex_flushed_other :: BufMgr where
  "ex_flushed_other =
     \<lparr>numBufs = 2, clockHand = 1, hashTable = [((2, 7), 1), ((2, 1), 0)],
      bufDescTable =
        [\<lparr>fileH = 0, pageNo = 0, frameNo = 0, pinCnt = 0, dirty = False, valid = False, refbit = False\<rparr>,
         \<lparr>fileH = 0, pageNo = 0, frameNo = 1, pinCnt = 0, dirty = False, valid = False, refbit = False\<rparr>],
      bufPool = [\<lparr>page_number = 1, data = ''b''\<rparr>, \<lparr>page_number = 7, data = ''c''\<rparr>],
      disk = [((1, 1), ''b''), ((2, 1), ''b''), ((2, 7), ''c''), ((2, 8), ''d''), ((2, 9), ''e'')],
      iolog = [IoRead 2 1, IoRead 2 7, IoWrite 1 \<lparr>page_number = 1, data = ''b''\<rparr>]\<rparr>"

subsection \<open>Example: a failed flush and a second copy of a page\<close>

text \<open>From \<open>ex_pinned\<close> by \<open>unPinPage 2 1 false\<close>: page 1 of file 2 is cached, unpinned and clean.\<close>

definition ex_clean :: BufMgr where
  "ex_clean =
     \<lparr>numBufs = 2, clockHand = 0, hashTable = [((2, 1), 0)],
      bufDescTable =
        [\<lparr>fileH = 2, pageNo = 1, frameNo = 0, pinCnt = 0, dirty = False, valid = True, refbit = True\<rparr>,
         \<lparr>fileH = 0, pageNo = 0, frameNo = 1, pinCnt = 0, dirty = False, valid = False, refbit = False\<rparr>],
      bufPool = [\<lparr>page_number = 1, data = ''b''\<rparr>, Page_default],
      disk = ex_disk, iolog = [IoRead 2 1]\<rparr>"

text \<open>Then \<open>readPage 1 1\<close>: page 1 of file 1 sits pinned in frame 1.\<close>

definition ex_two_files :: BufMgr where
  "ex_two_files =
     \<lparr>numBufs = 2, clockHand = 1, hashTable = [((1, 1), 1), ((2, 1), 0)],
      bufDescTable =
        [\<lparr>fileH = 2, pageNo = 1, frameNo = 0, pinCnt = 0, dirty = False, valid = True, refbit = True\<rparr>,
         \<lparr>fileH = 1, pageNo = 1, frameNo = 1, pinCnt = 1, dirty = False, valid = True, refbit = True\<rparr>],
      bufPool = [\<lparr>page_number = 1, data = ''b''\<rparr>, \<lparr>page_number = 1, data = ''a''\<rparr>],
      disk = ex_disk, iolog = [IoRead 2 1, IoRead 1 1]\<rparr>"

text \<open>Then \<open>flushFile 1\<close>, which fails with PagePinned at frame 1. At frame 0, which holds
  page 1 of file 2, it removed the key (file 1, page 1): the entry of frame 1.\<close>

definition ex_flush_failed :: BufMgr where
  "ex_flush_failed =
     \<lparr>numBufs = 2, clockHand = 1, hashTable = [((2, 1), 0)],
      bufDescTable =
        [\<lparr>fileH = 0, pageNo = 0, frameNo = 0, pinCnt = 0, dirty = False, valid = False, refbit = False\<rparr>,
         \<lparr>fileH = 1, pageNo = 1, frameNo = 1, pinCnt = 1, dirty = False, valid = True, refbit = True\<rparr>],
      bufPool = [\<lparr>page_number = 1, data = ''b''\<rparr>, \<lparr>page_number = 1, data = ''a''\<rparr>],
      disk = ex_disk, iolog = [IoRead 2 1, IoRead 1 1]\<rparr>"

text \<open>Then \<open>readPage 1 1\<close> again: a miss, and frame 0 is filled with a second copy.\<close>

definition ex_duplicate :: BufMgr where
  "ex_duplicate =
     \<lparr>numBufs = 2, clockHand = 0, hashTable = [((1, 1), 0), ((2, 1), 0)],
      bufDescTable =
        [\<lparr>fileH = 1, pageNo = 1, frameNo = 0, pinCnt = 1, dirty = False, valid = True, refbit = True\<rparr>,
         \<lparr>fileH = 1, pageNo = 1, frameNo = 1, pinCnt = 1, dirty = False, valid = True, refbit = True\<rparr>],
      bufPool = [\<lparr>page_number = 1, data = ''a''\<rparr>, \<lparr>page_number = 1, data = ''a''\<rparr>],
      disk = ex_disk, iolog = [IoRead 2 1, IoRead 1 1, IoRead 1 1]\<rparr>"

subsection \<open>Example: a victim that is not in the page table\<close>

text \<open>A pool of three frames after \<open>readPage 2 1\<close>.\<close>

definition ex3_a :: BufMgr where
  "ex3_a =
     \<lparr>numBufs = 3, clockHand = 0, hashTable = [((2, 1), 0)],
      bufDescTable =
        [\<lparr>fileH = 2, pageNo = 1, frameNo = 0, pinCnt = 1, dirty = False, valid = True, refbit = True\<rparr>,
         \<lparr>fileH = 0, pageNo = 0, frameNo = 1, pinCnt = 0, dirty = False, valid = False, refbit = False\<rparr>,
         \<lparr>fileH = 0, pageNo = 0, frameNo = 2, pinCnt = 0, dirty = False, valid = False, refbit = False\<rparr>],
      bufPool = [\<lparr>page_number = 1, data = ''b''\<rparr>, Page_default, Page_default],
      disk = ex_disk, iolog = [IoRead 2 1]\<rparr>"

text \<open>Then \<open>unPinPage 2 1 false\<close>.\<close>

definition ex3_b :: BufMgr where
  "ex3_b =
     \<lparr>numBufs = 3, clockHand = 0, hashTable = [((2, 1), 0)],
      bufDescTable =
        [\<lparr>fileH = 2, pageNo = 1, frameNo = 0, pinCnt = 0, dirty = False, valid = True, refbit = True\<rparr>,
         \<lparr>fileH = 0, pageNo = 0, frameNo = 1, pinCnt = 0, dirty = False, valid = False, refbit = False\<rparr>,
         \<lparr>fileH = 0, pageNo = 0, frameNo = 2, pinCnt = 0, dirty = False, valid = False, refbit = False\<rparr>],
      bufPool = [\<lparr>page_number = 1, data = ''b''\<rparr>, Page_default, Page_default],
      disk = ex_disk, iolog = [IoRead 2 1]\<rparr>"

text \<open>Then \<open>readPage 2 7\<close>, which stays pinned in frame 1.\<close>

definition ex3_c :: BufMgr where
  "ex3_c =
     \<lparr>numBufs = 3, clockHand = 1, hashTable = [((2, 7), 1), ((2, 1), 0)],
      bufDescTable =
        [\<lparr>fileH = 2, pageNo = 1, frameNo = 0, pinCnt = 0, dirty = False, valid = True, refbit = True\<rparr>,
         \<lparr>fileH = 2, pageNo = 7, frameNo = 1, pinCnt = 1, dirty = False, valid = True, refbit = True\<rparr>,
         \<lparr>fileH = 0, pageNo = 0, frameNo = 2, pinCnt = 0, dirty = False, valid = False, refbit = False\<rparr>],
      bufPool = [\<lparr>page_number = 1, data = ''b''\<rparr>, \<lparr>page_number = 7, data = ''c''\<rparr>, Page_default],
      disk = ex_disk, iolog = [IoRead 2 1, IoRead 2 7]\<rparr>"

text \<open>Then \<open>readPage 1 1\<close> into frame 2.\<close>

definition ex3_d :: BufMgr where
  "ex3_d =
     \<lparr>numBufs = 3, clockHand = 2, hashTable = [((1, 1), 2), ((2, 7), 1), ((2, 1), 0)],
      bufDescTable =
        [\<lparr>fileH = 2, pageNo = 1, frameNo = 0, pinCnt = 0, dirty = False, valid = True, refbit = True\<rparr>,
         \<lparr>fileH = 2, pageNo = 7, frameNo = 1, pinCnt = 1, dirty = False, valid = True, refbit = True\<rparr>,
         \<lparr>fileH = 1, pageNo = 1, frameNo = 2, pinCnt = 1, dirty = False, valid = True, refbit = True\<rparr>],
      bufPool = [\<lparr>page_number = 1, data = ''b''\<rparr>, \<lparr>page_number = 7, data = ''c''\<rparr>, \<lparr>page_number = 1, data = ''a''\<rparr>],
      disk = ex_disk, iolog = [IoRead 2 1, IoRead 2 7, IoRead 1 1]\<rparr>"

text \<open>Then \<open>unPinPage 1 1 false\<close>.\<close>

definition ex3_e :: BufMgr where
  "ex3_e =
     \<lparr>numBufs = 3, clockHand = 2, hashTable = [((1, 1), 2), ((2, 7), 1), ((2, 1), 0)],
      bufDescTable =
        [\<lparr>fileH = 2, pageNo = 1, frameNo = 0, pinCnt = 0, dirty = False, valid = True, refbit = True\<rparr>,
         \<lparr>fileH = 2, pageNo = 7, frameNo = 1, pinCnt = 1, dirty = False, valid = True, refbit = True\<rparr>,
         \<lparr>fileH = 1, pageNo = 1, frameNo = 2, pinCnt = 0, dirty = False, valid = True, refbit = True\<rparr>],
      bufPool = [\<lparr>page_number = 1, data = ''b''\<rparr>, \<lparr>page_number = 7, data = ''c''\<rparr>, \<lparr>page_number = 1, data = ''a''\<rparr>],
      disk = ex_disk, iolog = [IoRead 2 1, IoRead 2 7, IoRead 1 1]\<rparr>"

text \<open>Then \<open>flushFile 1\<close>, which fails with PagePinned at frame 1. At frame 0 it removed
  the key (file 1, page 1), the entry of frame 2, which is still valid.\<close>

definition ex3_f :: BufMgr where
  "ex3_f =
     \<lparr>numBufs = 3, clockHand = 2, hashTable = [((2, 7), 1), ((2, 1), 0)],
      bufDescTable =
        [\<lparr>fileH = 0, pageNo = 0, frameNo = 0, pinCnt = 0, dirty = False, valid = False, refbit = False\<rparr>,
         \<lparr>fileH = 2, pageNo = 7, frameNo = 1, pinCnt = 1, dirty = False, valid = True, refbit = True\<rparr>,
         \<lparr>fileH = 1, pageNo = 1, frameNo = 2, pinCnt = 0, dirty = False, valid = True, refbit = True\<rparr>],
      bufPool = [\<lparr>page_number = 1, data = ''b''\<rparr>, \<lparr>page_number = 7, data = ''c''\<rparr>, \<lparr>page_number = 1, data = ''a''\<rparr>],
      disk = ex_disk, iolog = [IoRead 2 1, IoRead 2 7, IoRead 1 1]\<rparr>"

text \<open>Then \<open>readPage 2 8\<close>, which takes the free frame 0.\<close>

definition ex3_g :: BufMgr where
  "ex3_g =
     \<lparr>numBufs = 3, clockHand = 0, hashTable = [((2, 8), 0), ((2, 7), 1), ((2, 1), 0)],
      bufDescTable =
        [\<lparr>fileH = 2, pageNo = 8, frameNo = 0, pinCnt = 1, dirty = False, valid = True, refbit = True\<rparr>,
         \<lparr>fileH = 2, pageNo = 7, frameNo = 1, pinCnt = 1, dirty = False, valid = True, refbit = True\<rparr>,
         \<lparr>fileH = 1, pageNo = 1, frameNo = 2, pinCnt = 0, dirty = False, valid = True, refbit = True\<rparr>],
      bufPool = [\<lparr>page_number = 8, data = ''d''\<rparr>, \<lparr>page_number = 7, data = ''c''\<rparr>, \<lparr>page_number = 1, data = ''a''\<rparr>],
      disk = ex_disk, iolog = [IoRead 2 1, IoRead 2 7, IoRead 1 1, IoRead 2 8]\<rparr>"

text \<open>What the failed \<open>readPage 2 9\<close> leaves: frame 2 was chosen and cleared, then the removal
  of its key threw NotFound.\<close>

definition ex3_h :: BufMgr where
  "ex3_h =
     \<lparr>numBufs = 3, clockHand = 2, hashTable = [((2, 8), 0), ((2, 7), 1), ((2, 1), 0)],
      bufDescTable =
        [\<lparr>fileH = 2, pageNo = 8, frameNo = 0, pinCnt = 1, dirty = False, valid = True, refbit = False\<rparr>,
         \<lparr>fileH = 2, pageNo = 7, frameNo = 1, pinCnt = 1, dirty = False, valid = True, refbit = False\<rparr>,
         \<lparr>fileH = 0, pageNo = 0, frameNo = 2, pinCnt = 0, dirty = False, valid = False, refbit = False\<rparr>],
      bufPool = [\<lparr>page_number = 8, data = ''d''\<rparr>, \<lparr>page_number = 7, data = ''c''\<rparr>, \<lparr>page_number = 1, data = ''a''\<rparr>],
      disk = ex_disk, iolog = [IoRead 2 1, IoRead 2 7, IoRead 1 1, IoRead 2 8]\<rparr>"

subsection \<open>Example: three frames, all pinned\<close>

text \<open>From \<open>ex3_a\<close> by \<open>readPage 2 7\<close>, with page 1 still pinned.\<close>

definition ex3_two_pinned :: BufMgr where
  "ex3_two_pinned =
     \<lparr>numBufs = 3, clockHand = 1, hashTable = [((2, 7), 1), ((2, 1), 0)],
      bufDescTable =
        [\<lparr>fileH = 2, pageNo = 1, frameNo = 0, pinCnt = 1, dirty = False, valid = True, refbit = True\<rparr>,
         \<lparr>fileH = 2, pageNo = 7, frameNo = 1, pinCnt = 1, dirty = False, valid = True, refbit = True\<rparr>,
         \<lparr>fileH = 0, pageNo = 0, frameNo = 2, pinCnt = 0, dirty = False, valid = False, refbit = False\<rparr>],
      bufPool = [\<lparr>page_number = 1, data = ''b''\<rparr>, \<lparr>page_number = 7, data = ''c''\<rparr>, Page_default],
      disk = ex_disk, iolog = [IoRead 2 1, IoRead 2 7]\<rparr>"

text \<open>Then \<open>readPage 2 8\<close>: three pinned pages in three frames.\<close>

definition ex3_all_pinned :: BufMgr where
  "ex3_all_pinned =
     \<lparr>numBufs = 3, clockHand = 2, hashTable = [((2, 8), 2), ((2, 7), 1), ((2, 1), 0)],
      bufDescTable =
        [\<lparr>fileH = 2, pageNo = 1, frameNo = 0, pinCnt = 1, dirty = False, valid = True, refbit = True\<rparr>,
         \<lparr>fileH = 2, pageNo = 7, frameNo = 1, pinCnt = 1, dirty = False, valid = True, refbit = True\<rparr>,
         \<lparr>fileH = 2, pageNo = 8, frameNo = 2, pinCnt = 1, dirty = False, valid = True, refbit = True\<rparr>],
      bufPool = [\<lparr>page_number = 1, data = ''b''\<rparr>, \<lparr>page_number = 7, data = ''c''\<rparr>, \<lparr>page_number = 8, data = ''d''\<rparr>],
      disk = ex_disk, iolog = [IoRead 2 1, IoRead 2 7, IoRead 2 8]\<rparr>"

text \<open>What the failed \<open>readPage 2 9\<close> leaves: the search went round twice and cleared the
  reference bits; the three pages are still pinned.\<close>

definition ex3_exceeded :: BufMgr where
  "ex3_exceeded =
     \<lparr>numBufs = 3, clockHand = 2, hashTable = [((2, 8), 2), ((2, 7), 1), ((2, 1), 0)],
      bufDescTable =
        [\<lparr>fileH = 2, pageNo = 1, frameNo = 0, pinCnt = 1, dirty = False, valid = True, refbit = False\<rparr>,
         \<lparr>fileH = 2, pageNo = 7, frameNo = 1, pinCnt = 1, dirty = False, valid = True, refbit = False\<rparr>,
         \<lparr>fileH = 2, pageNo = 8, frameNo = 2, pinCnt = 1, dirty = False, valid = True, refbit = False\<rparr>],
      bufPool = [\<lparr>page_number = 1, data = ''b''\<rparr>, \<lparr>page_number = 7, data = ''c''\<rparr>, \<lparr>page_number = 8, data = ''d''\<rparr>],
      disk = ex_disk, iolog = [IoRead 2 1, IoRead 2 7, IoRead 2 8]\<rparr>"

section \<open>Properties\<close>

declare allocBuf_loop.simps [simp del]
declare flushFile_loop.simps [simp del]

subsection \<open>The page table\<close>

lemma hashTable_lookup_Inr: "hashTable_lookup ht k = Inr fr \<longleftrightarrow> map_of ht k = Some fr"
  by (simp add: hashTable_lookup_def split: option.splits)

lemma hashTable_lookup_Inl: "hashTable_lookup ht k = Inl e \<longleftrightarrow> map_of ht k = None \<and> e = HashNotFound"
  by (auto simp: hashTable_lookup_def split: option.splits)

lemma map_of_in_range:
  "list_all (\<lambda>kv. snd kv < n) ht \<Longrightarrow> map_of ht k = Some fr \<Longrightarrow> fr < n"
proof -
  assume all: "list_all (\<lambda>kv. snd kv < n) ht" and "map_of ht k = Some fr"
  then have "(k, fr) \<in> set ht" by (simp add: map_of_SomeD)
  with all show "fr < n" by (auto simp: list_all_iff)
qed

lemma wf_lookup_in_range:
  "wf_BufMgr s \<Longrightarrow> hashTable_lookup (hashTable s) k = Inr fr \<Longrightarrow> fr < length (bufDescTable s)"
  by (auto simp: wf_BufMgr_def hashTable_lookup_Inr dest: map_of_in_range)

subsection \<open>Evaluating the operations on the examples\<close>

lemmas eval_defs =
  readPage_def unPinPage_def flushFile_def allocBuf_def allocBuf_loop.simps flushFile_loop.simps
  hashTable_lookup_def hashTable_insert_def hashTable_remove_def File_readPage_def
  File_writePage_def BufDesc_Set_def BufDesc_clear_def BufDesc_init_def advanceClock_def
  Page_default_def File_default_def Let_def ex_disk_def

lemma BufMgr_new_2:
  "BufMgr_new 2 dk =
     \<lparr>numBufs = 2, clockHand = 1, hashTable = [],
      bufDescTable = [BufDesc_init 0, BufDesc_init 1],
      bufPool = [Page_default, Page_default], disk = dk, iolog = []\<rparr>"
proof -
  have "[0..<2] = [0, Suc 0]"
    by (simp add: upt_rec)
  moreover have "replicate 2 Page_default = [Page_default, Page_default]"
    by (simp add: numeral_2_eq_2)
  ultimately show ?thesis
    by (simp add: BufMgr_new_def)
qed

lemma ex_pinned_reached: "readPage 2 1 (BufMgr_new 2 ex_disk) = (Inr 0, ex_pinned)"
  by (simp add: BufMgr_new_2 ex_pinned_def eval_defs)

lemma ex_released_reached: "unPinPage 2 1 True ex_pinned = (Inr (), ex_released)"
  by (simp add: ex_pinned_def ex_released_def eval_defs)

lemma wf_ex_pinned: "wf_BufMgr ex_pinned"
  by (simp add: wf_BufMgr_def ex_pinned_def)

lemma wf_ex_released: "wf_BufMgr ex_released"
  by (simp add: wf_BufMgr_def ex_released_def)

subsection \<open>Release\<close>

text \<open>
  C9. A successful \<open>unPinPage\<close> changes one descriptor only, the one the page table gives
  for the key. There the dirty flag is set when the call passes true and is as before when
  it passes false, so a set flag stays set; the pin count goes down by one; the owner, the
  frame number, the valid bit and the reference bit are as before.
\<close>

theorem C9_release_sticky:
  assumes wf: "wf_BufMgr s"
    and ok: "unPinPage f pn dty s = (Inr (), s')"
  shows "\<exists>fr. hashTable_lookup (hashTable s) (f, pn) = Inr fr \<and> fr < length (bufDescTable s) \<and>
           s' = s\<lparr>bufDescTable := (bufDescTable s)[fr := bufDescTable s' ! fr]\<rparr> \<and>
           (dty \<longrightarrow> dirty (bufDescTable s' ! fr)) \<and>
           (\<not> dty \<longrightarrow> dirty (bufDescTable s' ! fr) = dirty (bufDescTable s ! fr)) \<and>
           (dirty (bufDescTable s ! fr) \<longrightarrow> dirty (bufDescTable s' ! fr)) \<and>
           pinCnt (bufDescTable s' ! fr) = pinCnt (bufDescTable s ! fr) - 1 \<and>
           fileH (bufDescTable s' ! fr) = fileH (bufDescTable s ! fr) \<and>
           pageNo (bufDescTable s' ! fr) = pageNo (bufDescTable s ! fr) \<and>
           frameNo (bufDescTable s' ! fr) = frameNo (bufDescTable s ! fr) \<and>
           valid (bufDescTable s' ! fr) = valid (bufDescTable s ! fr) \<and>
           refbit (bufDescTable s' ! fr) = refbit (bufDescTable s ! fr)"
proof -
  from ok obtain fr where fr: "hashTable_lookup (hashTable s) (f, pn) = Inr fr"
    by (auto simp: unPinPage_def split: sum.splits)
  from wf fr have len: "fr < length (bufDescTable s)"
    by (rule wf_lookup_in_range)
  from ok fr have pin: "pinCnt (bufDescTable s ! fr) \<noteq> 0"
    by (auto simp: unPinPage_def Let_def split: if_splits)
  from ok fr pin have s': "s' = s\<lparr>bufDescTable := (bufDescTable s)[fr :=
       (if dty then (bufDescTable s ! fr)\<lparr>dirty := dty\<rparr> else bufDescTable s ! fr)
         \<lparr>pinCnt := pinCnt (bufDescTable s ! fr) - 1\<rparr>]\<rparr>"
    by (auto simp: unPinPage_def Let_def split: if_splits)
  show ?thesis
    apply (rule exI [of _ fr])
    using fr len by (simp add: s')
qed

theorem C9_release_sticky_witness:
  "wf_BufMgr ex_pinned \<and> unPinPage 2 1 True ex_pinned = (Inr (), ex_released) \<and>
   hashTable_lookup (hashTable ex_pinned) (2, 1) = Inr 0 \<and>
   dirty (bufDescTable ex_released ! 0) \<and>
   pinCnt (bufDescTable ex_released ! 0) = pinCnt (bufDescTable ex_pinned ! 0) - 1"
proof -
  have hit: "hashTable_lookup (hashTable ex_pinned) (2, 1) = Inr 0"
    by (simp add: ex_pinned_def hashTable_lookup_def)
  from C9_release_sticky [OF wf_ex_pinned ex_released_reached] hit
  have "dirty (bufDescTable ex_released ! 0) \<and>
        pinCnt (bufDescTable ex_released ! 0) = pinCnt (bufDescTable ex_pinned ! 0) - 1"
    by auto
  with hit wf_ex_pinned ex_released_reached show ?thesis
    by simp
qed

text \<open>
  The three ways through \<open>unPinPage\<close>. When the key is in the page table and the pin
  count of its frame is 0, it fails with PageNotPinned. When the pin count is positive, it
  succeeds and the count goes down by exactly one, so it never passes below 0. When the key
  is not in the page table, the lookup throws NotFound; the lookup is not inside a try
  block, so this exception leaves the call. Both failures leave the state as it was.
\<close>

lemma unPinPage_outcomes:
  "(hashTable_lookup (hashTable s) (f, pn) = Inl HashNotFound \<longrightarrow>
      unPinPage f pn dty s = (Inl HashNotFound, s)) \<and>
   (\<forall>fr. hashTable_lookup (hashTable s) (f, pn) = Inr fr \<and> pinCnt (bufDescTable s ! fr) = 0 \<longrightarrow>
      unPinPage f pn dty s = (Inl PageNotPinned, s)) \<and>
   (\<forall>fr. hashTable_lookup (hashTable s) (f, pn) = Inr fr \<and> 0 < pinCnt (bufDescTable s ! fr) \<and>
         fr < length (bufDescTable s) \<longrightarrow>
      fst (unPinPage f pn dty s) = Inr () \<and>
      pinCnt (bufDescTable (snd (unPinPage f pn dty s)) ! fr) + 1 = pinCnt (bufDescTable s ! fr))"
  by (auto simp: unPinPage_def Let_def)

lemma unPinPage_outcomes_example:
  "hashTable_lookup (hashTable ex_pinned) (1, 1) = Inl HashNotFound \<and>
   unPinPage 1 1 False ex_pinned = (Inl HashNotFound, ex_pinned) \<and>
   hashTable_lookup (hashTable ex_released) (2, 1) = Inr 0 \<and>
   pinCnt (bufDescTable ex_released ! 0) = 0 \<and>
   unPinPage 2 1 False ex_released = (Inl PageNotPinned, ex_released) \<and>
   hashTable_lookup (hashTable ex_pinned) (2, 1) = Inr 0 \<and>
   0 < pinCnt (bufDescTable ex_pinned ! 0) \<and>
   fst (unPinPage 2 1 False ex_pinned) = Inr () \<and>
   pinCnt (bufDescTable (snd (unPinPage 2 1 False ex_pinned)) ! 0) + 1 =
     pinCnt (bufDescTable ex_pinned ! 0)"
proof -
  have a: "hashTable_lookup (hashTable ex_pinned) (1, 1) = Inl HashNotFound"
    by (simp add: ex_pinned_def hashTable_lookup_def)
  have b: "hashTable_lookup (hashTable ex_released) (2, 1) = Inr 0 \<and>
           pinCnt (bufDescTable ex_released ! 0) = 0"
    by (simp add: ex_released_def hashTable_lookup_def)
  have c: "hashTable_lookup (hashTable ex_pinned) (2, 1) = Inr 0 \<and>
           0 < pinCnt (bufDescTable ex_pinned ! 0) \<and> 0 < length (bufDescTable ex_pinned)"
    by (simp add: ex_pinned_def hashTable_lookup_def)
  show ?thesis
    using a b c unPinPage_outcomes [of ex_pinned 1 1 False]
      unPinPage_outcomes [of ex_released 2 1 False] unPinPage_outcomes [of ex_pinned 2 1 False]
    by blast
qed

text \<open>
  C5 does not hold of the code where the key is not cached. The claim says that such a
  release fails with PageNotPinned. On a new pool nothing is cached, and the release of
  page 1 of file 1 ends with the NotFound of the lookup: \<open>unPinPage\<close> does not catch it,
  as \<open>readPage\<close> and \<open>disposePage\<close> do around the same lookup.
\<close>

theorem C5_release_not_cached:
  "hashTable_lookup (hashTable (BufMgr_new 2 ex_disk)) (1, 1) = Inl HashNotFound \<and>
   fst (unPinPage 1 1 False (BufMgr_new 2 ex_disk)) = Inl HashNotFound \<and>
   fst (unPinPage 1 1 False (BufMgr_new 2 ex_disk)) \<noteq> Inl PageNotPinned"
  by (simp add: BufMgr_new_2 unPinPage_def hashTable_lookup_def)

subsection \<open>The eviction search, round by round\<close>

lemma nth_update_field:
  "P d = P (xs ! h) \<Longrightarrow> P ((xs[h := d]) ! j) = P (xs ! j)"
  by (cases "h < length xs") (auto simp: nth_list_update list_update_beyond)

lemma advanceClock_fields [simp]:
  "numBufs (advanceClock s) = numBufs s" "hashTable (advanceClock s) = hashTable s"
  "bufDescTable (advanceClock s) = bufDescTable s" "bufPool (advanceClock s) = bufPool s"
  "disk (advanceClock s) = disk s" "iolog (advanceClock s) = iolog s"
  by (simp_all add: advanceClock_def)

lemma File_writePage_fields [simp]:
  "numBufs (File_writePage f pg s) = numBufs s" "hashTable (File_writePage f pg s) = hashTable s"
  "bufDescTable (File_writePage f pg s) = bufDescTable s" "bufPool (File_writePage f pg s) = bufPool s"
  "clockHand (File_writePage f pg s) = clockHand s"
  "iolog (File_writePage f pg s) = iolog s @ [IoWrite f pg]"
  by (simp_all add: File_writePage_def)

text \<open>The five ways through one round of the loop of allocBuf.\<close>

lemma allocBuf_loop_exceeded:
  "(numBufs s * 2) mod 2 ^ 32 < count \<Longrightarrow> allocBuf_loop count s = (Inl BufferExceeded, s)"
  by (subst allocBuf_loop.simps) simp

lemma allocBuf_loop_invalid:
  "\<not> (numBufs s * 2) mod 2 ^ 32 < count \<Longrightarrow> \<not> valid (inspected s) \<Longrightarrow>
     allocBuf_loop count s = (Inr (hand s), advanceClock s)"
  by (subst allocBuf_loop.simps) (simp add: Let_def)

lemma allocBuf_loop_referenced:
  "\<not> (numBufs s * 2) mod 2 ^ 32 < count \<Longrightarrow> valid (inspected s) \<Longrightarrow> refbit (inspected s) \<Longrightarrow>
     allocBuf_loop count s = allocBuf_loop (count + 1) (second_chance s)"
  by (subst allocBuf_loop.simps) (simp add: Let_def second_chance_def)

lemma allocBuf_loop_pinned:
  "\<not> (numBufs s * 2) mod 2 ^ 32 < count \<Longrightarrow> valid (inspected s) \<Longrightarrow> \<not> refbit (inspected s) \<Longrightarrow>
   pinCnt (inspected s) \<noteq> 0 \<Longrightarrow>
     allocBuf_loop count s = allocBuf_loop (count + 1) (advanceClock s)"
  by (subst allocBuf_loop.simps) (simp add: Let_def)

lemma allocBuf_loop_evict:
  "\<not> (numBufs s * 2) mod 2 ^ 32 < count \<Longrightarrow> valid (inspected s) \<Longrightarrow> \<not> refbit (inspected s) \<Longrightarrow>
   pinCnt (inspected s) = 0 \<Longrightarrow>
     allocBuf_loop count s =
       (case hashTable_remove (fileH (inspected s), page_number (bufPool s ! hand s)) (hashTable s) of
          Inl e \<Rightarrow> (Inl e, written_cleared s)
        | Inr ht \<Rightarrow> (Inr (hand s), (written_cleared s)\<lparr>hashTable := ht\<rparr>))"
  by (subst allocBuf_loop.simps) (cases "dirty (inspected s)"; simp add: Let_def written_cleared_def split: sum.split)

lemma allocBuf_loop_induct [case_names round]:
  assumes "\<And>count s.
     (\<not> (numBufs s * 2) mod 2 ^ 32 < count \<Longrightarrow> valid (inspected s) \<Longrightarrow> refbit (inspected s) \<Longrightarrow>
        P (count + 1) (second_chance s)) \<Longrightarrow>
     (\<not> (numBufs s * 2) mod 2 ^ 32 < count \<Longrightarrow> valid (inspected s) \<Longrightarrow> \<not> refbit (inspected s) \<Longrightarrow>
        pinCnt (inspected s) \<noteq> 0 \<Longrightarrow> P (count + 1) (advanceClock s)) \<Longrightarrow>
     P count s"
  shows "P count s"
proof (induction count s rule: allocBuf_loop.induct)
  case (1 count s)
  show ?case
  proof (rule assms)
    assume "\<not> (numBufs s * 2) mod 2 ^ 32 < count" "valid (inspected s)" "refbit (inspected s)"
    then show "P (count + 1) (second_chance s)"
      using "1.IH"(2) [OF _ refl refl refl refl refl] by (simp add: second_chance_def)
  next
    assume "\<not> (numBufs s * 2) mod 2 ^ 32 < count" "valid (inspected s)" "\<not> refbit (inspected s)"
      "pinCnt (inspected s) \<noteq> 0"
    then show "P (count + 1) (advanceClock s)"
      using "1.IH"(1) [OF _ refl refl refl refl refl] by simp
  qed
qed

lemma allocBuf_loop_cases [case_names exceeded invalid referenced pinned evict]:
  assumes "(numBufs s * 2) mod 2 ^ 32 < count \<Longrightarrow> R"
    and "\<not> (numBufs s * 2) mod 2 ^ 32 < count \<Longrightarrow> \<not> valid (inspected s) \<Longrightarrow> R"
    and "\<not> (numBufs s * 2) mod 2 ^ 32 < count \<Longrightarrow> valid (inspected s) \<Longrightarrow> refbit (inspected s) \<Longrightarrow> R"
    and "\<not> (numBufs s * 2) mod 2 ^ 32 < count \<Longrightarrow> valid (inspected s) \<Longrightarrow> \<not> refbit (inspected s) \<Longrightarrow>
         pinCnt (inspected s) \<noteq> 0 \<Longrightarrow> R"
    and "\<not> (numBufs s * 2) mod 2 ^ 32 < count \<Longrightarrow> valid (inspected s) \<Longrightarrow> \<not> refbit (inspected s) \<Longrightarrow>
         pinCnt (inspected s) = 0 \<Longrightarrow> R"
  shows R
  using assms by blast

lemma second_chance_fields [simp]:
  "numBufs (second_chance s) = numBufs s" "hashTable (second_chance s) = hashTable s"
  "bufPool (second_chance s) = bufPool s" "iolog (second_chance s) = iolog s"
  "disk (second_chance s) = disk s"
  "length (bufDescTable (second_chance s)) = length (bufDescTable s)"
  "valid (bufDescTable (second_chance s) ! j) = valid (bufDescTable s ! j)"
  "pinCnt (bufDescTable (second_chance s) ! j) = pinCnt (bufDescTable s ! j)"
  "dirty (bufDescTable (second_chance s) ! j) = dirty (bufDescTable s ! j)"
  "fileH (bufDescTable (second_chance s) ! j) = fileH (bufDescTable s ! j)"
  "pageNo (bufDescTable (second_chance s) ! j) = pageNo (bufDescTable s ! j)"
  by (simp_all add: second_chance_def nth_update_field)

lemma written_cleared_fields [simp]:
  "numBufs (written_cleared s) = numBufs s" "hashTable (written_cleared s) = hashTable s"
  "bufPool (written_cleared s) = bufPool s"
  "length (bufDescTable (written_cleared s)) = length (bufDescTable s)"
  "iolog (written_cleared s) =
     iolog s @ (if dirty (inspected s) then [IoWrite (fileH (inspected s)) (bufPool s ! hand s)] else [])"
  by (simp_all add: written_cleared_def)

lemma hand_less: "0 < numBufs s \<Longrightarrow> hand s < numBufs s"
  by (simp add: advanceClock_def)

lemma not_exceeded_pos: "\<not> (numBufs s * 2) mod 2 ^ 32 < count \<Longrightarrow> 0 < count \<Longrightarrow> 0 < numBufs s"
  by (cases "numBufs s = 0") auto

lemma allocBuf_loop_victim:
  "allocBuf_loop c s = (Inr fr, s') \<Longrightarrow> 0 < c \<Longrightarrow>
     fr < numBufs s \<and> (\<not> valid (bufDescTable s ! fr) \<or> pinCnt (bufDescTable s ! fr) = 0)"
proof (induction c s rule: allocBuf_loop_induct)
  case (round count s)
  show ?case
  proof (cases rule: allocBuf_loop_cases [of s count])
    case exceeded
    with round.prems show ?thesis by (simp add: allocBuf_loop_exceeded)
  next
    case invalid
    with round.prems show ?thesis
      by (auto simp: allocBuf_loop_invalid intro: hand_less not_exceeded_pos)
  next
    case referenced
    with round.prems round.IH(1) show ?thesis
      by (simp add: allocBuf_loop_referenced)
  next
    case pinned
    with round.prems round.IH(2) show ?thesis
      by (simp add: allocBuf_loop_pinned)
  next
    case evict
    with round.prems show ?thesis
      by (auto simp: allocBuf_loop_evict split: sum.splits intro: hand_less not_exceeded_pos)
  qed
qed

lemma allocBuf_loop_writeback:
  "allocBuf_loop c s = (Inr fr, s') \<Longrightarrow> valid (bufDescTable s ! fr) \<Longrightarrow>
   dirty (bufDescTable s ! fr) \<Longrightarrow>
     iolog s' = iolog s @ [IoWrite (fileH (bufDescTable s ! fr)) (bufPool s ! fr)]"
proof (induction c s rule: allocBuf_loop_induct)
  case (round count s)
  show ?case
  proof (cases rule: allocBuf_loop_cases [of s count])
    case exceeded
    with round.prems show ?thesis by (simp add: allocBuf_loop_exceeded)
  next
    case invalid
    with round.prems show ?thesis
      by (auto simp: allocBuf_loop_invalid)
  next
    case referenced
    with round.prems round.IH(1) show ?thesis
      by (simp add: allocBuf_loop_referenced)
  next
    case pinned
    with round.prems round.IH(2) show ?thesis
      by (simp add: allocBuf_loop_pinned)
  next
    case evict
    with round.prems show ?thesis
      by (auto simp: allocBuf_loop_evict split: sum.splits)
  qed
qed

lemma hashTable_remove_None:
  "hashTable_remove k ht = Inr ht' \<Longrightarrow> map_of ht key = None \<Longrightarrow> map_of ht' key = None"
  by (auto simp: hashTable_remove_def delete_conv split: option.splits)

lemma hashTable_remove_subset:
  "hashTable_remove k ht = Inr ht' \<Longrightarrow> set ht' \<subseteq> set ht"
  by (auto simp: hashTable_remove_def AList.delete_eq split: option.splits)

lemma allocBuf_loop_keeps:
  "allocBuf_loop c s = (r, s') \<Longrightarrow>
     numBufs s' = numBufs s \<and> length (bufDescTable s') = length (bufDescTable s) \<and>
     bufPool s' = bufPool s \<and> set (hashTable s') \<subseteq> set (hashTable s) \<and>
     (\<forall>key. map_of (hashTable s) key = None \<longrightarrow> map_of (hashTable s') key = None)"
proof (induction c s rule: allocBuf_loop_induct)
  case (round count s)
  show ?case
  proof (cases rule: allocBuf_loop_cases [of s count])
    case exceeded
    with round.prems show ?thesis by (auto simp: allocBuf_loop_exceeded)
  next
    case invalid
    with round.prems show ?thesis
      by (auto simp: allocBuf_loop_invalid)
  next
    case referenced
    with round.prems round.IH(1) show ?thesis
      by (simp add: allocBuf_loop_referenced)
  next
    case pinned
    with round.prems round.IH(2) show ?thesis
      by (simp add: allocBuf_loop_pinned)
  next
    case evict
    show ?thesis
    proof (cases "hashTable_remove (fileH (inspected s), page_number (bufPool s ! hand s)) (hashTable s)")
      case (Inl e)
      with evict round.prems show ?thesis
        by (auto simp: allocBuf_loop_evict)
    next
      case (Inr ht)
      with evict round.prems have "s' = (written_cleared s)\<lparr>hashTable := ht\<rparr>"
        by (auto simp: allocBuf_loop_evict)
      with hashTable_remove_None [OF Inr] hashTable_remove_subset [OF Inr] show ?thesis
        by simp
    qed
  qed
qed

subsection \<open>More evaluations\<close>

lemma ex_full_reached: "readPage 2 7 ex_released = (Inr 1, ex_full)"
  by (simp add: ex_released_def ex_full_def eval_defs)

lemma ex_victim_reached: "allocBuf ex_full = (Inr 0, ex_victim)"
  by (simp add: ex_full_def ex_victim_def eval_defs)

lemma ex_refilled_reached: "readPage 2 8 ex_full = (Inr 0, ex_refilled)"
  by (simp add: ex_full_def ex_refilled_def eval_defs)

lemma wf_ex_full: "wf_BufMgr ex_full"
  by (simp add: wf_BufMgr_def ex_full_def)

subsection \<open>Fetch\<close>

lemma readPage_hit:
  "hashTable_lookup (hashTable s) (f, pn) = Inr k \<Longrightarrow>
     readPage f pn s =
       (Inr k, s\<lparr>bufDescTable := (bufDescTable s)[k := (bufDescTable s ! k)
                     \<lparr>refbit := True, pinCnt := pinCnt (bufDescTable s ! k) + 1\<rparr>]\<rparr>)"
  by (simp add: readPage_def Let_def)

lemma readPage_miss:
  assumes miss: "hashTable_lookup (hashTable s) (f, pn) = Inl e"
    and ok: "readPage f pn s = (Inr fr, s')"
  shows "\<exists>s1 d. allocBuf s = (Inr fr, s1) \<and> map_of (disk s1) (f, pn) = Some d \<and>
           s' = s1\<lparr>iolog := iolog s1 @ [IoRead f pn],
                   bufPool := (bufPool s1)[fr := \<lparr>page_number = pn, data = d\<rparr>],
                   hashTable := ((f, pn), fr) # hashTable s1,
                   bufDescTable := (bufDescTable s1)[fr := BufDesc_Set f pn (bufDescTable s1 ! fr)]\<rparr>"
proof -
  from miss have none: "map_of (hashTable s) (f, pn) = None"
    by (simp add: hashTable_lookup_Inl)
  from ok miss obtain s1 where ab: "allocBuf s = (Inr fr, s1)"
    by (auto simp: readPage_def Let_def split: sum.splits prod.splits)
  from allocBuf_loop_keeps [OF ab [unfolded allocBuf_def]] none
  have none1: "map_of (hashTable s1) (f, pn) = None"
    by simp
  from ok miss ab obtain d where d: "map_of (disk s1) (f, pn) = Some d"
    by (auto simp: readPage_def File_readPage_def split: option.splits)
  from ok miss ab d none1 show ?thesis
    by (auto simp: readPage_def File_readPage_def hashTable_insert_def Let_def)
qed

text \<open>
  C8. On a hit \<open>readPage\<close> returns the frame of the page table, sets its reference bit and
  adds one to its pin count, and changes nothing else, so the content it returns is the
  cached one. After any successful \<open>readPage\<close>, hit or miss, the page table maps the key to
  the returned frame, whose pin count is at least 1 and whose reference bit is set.
\<close>

theorem C8_fetch:
  assumes wf: "wf_BufMgr s"
  shows "(\<forall>k. hashTable_lookup (hashTable s) (f, pn) = Inr k \<longrightarrow>
            readPage f pn s =
              (Inr k, s\<lparr>bufDescTable := (bufDescTable s)[k := (bufDescTable s ! k)
                            \<lparr>refbit := True, pinCnt := pinCnt (bufDescTable s ! k) + 1\<rparr>]\<rparr>)) \<and>
         (\<forall>fr s'. readPage f pn s = (Inr fr, s') \<longrightarrow>
            hashTable_lookup (hashTable s') (f, pn) = Inr fr \<and> fr < numBufs s' \<and>
            1 \<le> pinCnt (bufDescTable s' ! fr) \<and> refbit (bufDescTable s' ! fr))"
proof (intro conjI allI impI)
  fix k assume "hashTable_lookup (hashTable s) (f, pn) = Inr k"
  then show "readPage f pn s =
      (Inr k, s\<lparr>bufDescTable := (bufDescTable s)[k := (bufDescTable s ! k)
                    \<lparr>refbit := True, pinCnt := pinCnt (bufDescTable s ! k) + 1\<rparr>]\<rparr>)"
    by (rule readPage_hit)
next
  fix fr s' assume ok: "readPage f pn s = (Inr fr, s')"
  have "hashTable_lookup (hashTable s') (f, pn) = Inr fr \<and> fr < numBufs s' \<and>
        1 \<le> pinCnt (bufDescTable s' ! fr) \<and> refbit (bufDescTable s' ! fr)"
  proof (cases "hashTable_lookup (hashTable s) (f, pn)")
    case (Inr k)
    from wf Inr have "k < length (bufDescTable s)"
      by (rule wf_lookup_in_range)
    with wf Inr ok readPage_hit [OF Inr] show ?thesis
      by (auto simp: wf_BufMgr_def)
  next
    case (Inl e)
    from readPage_miss [OF Inl ok] obtain s1 d where
      ab: "allocBuf s = (Inr fr, s1)" and
      s': "s' = s1\<lparr>iolog := iolog s1 @ [IoRead f pn],
                   bufPool := (bufPool s1)[fr := \<lparr>page_number = pn, data = d\<rparr>],
                   hashTable := ((f, pn), fr) # hashTable s1,
                   bufDescTable := (bufDescTable s1)[fr := BufDesc_Set f pn (bufDescTable s1 ! fr)]\<rparr>"
      by blast
    from allocBuf_loop_victim [OF ab [unfolded allocBuf_def]] have "fr < numBufs s"
      by simp
    moreover from allocBuf_loop_keeps [OF ab [unfolded allocBuf_def]]
    have "numBufs s1 = numBufs s" "length (bufDescTable s1) = length (bufDescTable s)"
      by simp_all
    ultimately show ?thesis
      using wf by (simp add: s' wf_BufMgr_def hashTable_lookup_def BufDesc_Set_def)
  qed
  then show "hashTable_lookup (hashTable s') (f, pn) = Inr fr" "fr < numBufs s'"
    "1 \<le> pinCnt (bufDescTable s' ! fr)" "refbit (bufDescTable s' ! fr)"
    by simp_all
qed

theorem C8_fetch_witness:
  "wf_BufMgr ex_released \<and> hashTable_lookup (hashTable ex_released) (2, 1) = Inr 0 \<and>
   fst (readPage 2 1 ex_released) = Inr 0 \<and>
   pinCnt (bufDescTable (snd (readPage 2 1 ex_released)) ! 0) = 1 \<and>
   bufPool (snd (readPage 2 1 ex_released)) = bufPool ex_released \<and>
   wf_BufMgr ex_full \<and> readPage 2 8 ex_full = (Inr 0, ex_refilled) \<and>
   hashTable_lookup (hashTable ex_refilled) (2, 8) = Inr 0 \<and>
   1 \<le> pinCnt (bufDescTable ex_refilled ! 0) \<and> refbit (bufDescTable ex_refilled ! 0)"
proof -
  have hit: "hashTable_lookup (hashTable ex_released) (2, 1) = Inr 0"
    by (simp add: ex_released_def hashTable_lookup_def)
  from C8_fetch [OF wf_ex_released, of 2 1] hit
  have "readPage 2 1 ex_released =
      (Inr 0, ex_released\<lparr>bufDescTable := (bufDescTable ex_released)[0 := (bufDescTable ex_released ! 0)
                    \<lparr>refbit := True, pinCnt := pinCnt (bufDescTable ex_released ! 0) + 1\<rparr>]\<rparr>)"
    by blast
  then have a: "fst (readPage 2 1 ex_released) = Inr 0 \<and>
      pinCnt (bufDescTable (snd (readPage 2 1 ex_released)) ! 0) = 1 \<and>
      bufPool (snd (readPage 2 1 ex_released)) = bufPool ex_released"
    by (simp add: ex_released_def)
  from C8_fetch [OF wf_ex_full, of 2 8] ex_refilled_reached
  have b: "hashTable_lookup (hashTable ex_refilled) (2, 8) = Inr 0 \<and>
      1 \<le> pinCnt (bufDescTable ex_refilled ! 0) \<and> refbit (bufDescTable ex_refilled ! 0)"
    by blast
  from a b hit wf_ex_released wf_ex_full ex_refilled_reached show ?thesis
    by simp
qed

subsection \<open>The eviction search\<close>

text \<open>
  C2. When \<open>allocBuf\<close> returns a frame, the frame is one of the pool, and its descriptor
  was either not valid, or valid with pin count 0. The search writes neither the valid bit
  nor the pin count of a descriptor before it selects one, so what the descriptor shows in
  the state the search starts from is what it shows when the search selects it. The pin
  count of a frame that is not valid is not looked at.
\<close>

theorem C2_victim_unpinned:
  assumes "allocBuf s = (Inr fr, s')"
  shows "fr < numBufs s \<and>
         (\<not> valid (bufDescTable s ! fr) \<or>
          valid (bufDescTable s ! fr) \<and> pinCnt (bufDescTable s ! fr) = 0)"
  using allocBuf_loop_victim [OF assms [unfolded allocBuf_def]] by auto


theorem C2_victim_unpinned_witness:
  "allocBuf ex_full = (Inr 0, ex_victim) \<and> 0 < numBufs ex_full \<and>
   valid (bufDescTable ex_full ! 0) \<and> pinCnt (bufDescTable ex_full ! 0) = 0 \<and>
   pinCnt (bufDescTable ex_full ! 1) = 1"
  using C2_victim_unpinned [OF ex_victim_reached] ex_victim_reached
  by (simp add: ex_full_def)

text \<open>
  C3. When \<open>allocBuf\<close> returns a frame whose descriptor was valid and dirty, the one thing
  it asked of the file layer is the write of that frame's page, through the file that owns
  the frame. A \<open>readPage\<close> that misses and gets such a frame asks for this write first and
  for the read that refills the frame after it. The witness is the scenario of the claim
  on a pool of two frames: page 1 of file 2 is fetched, released as modified, page 7 fills
  the other frame, and the fetch of page 8 evicts page 1.
\<close>

theorem C3_writeback:
  "(\<forall>fr s'. allocBuf s = (Inr fr, s') \<and> valid (bufDescTable s ! fr) \<and> dirty (bufDescTable s ! fr) \<longrightarrow>
      iolog s' = iolog s @ [IoWrite (fileH (bufDescTable s ! fr)) (bufPool s ! fr)]) \<and>
   (\<forall>fr s'. readPage f pn s = (Inr fr, s') \<and> hashTable_lookup (hashTable s) (f, pn) = Inl HashNotFound \<and>
        valid (bufDescTable s ! fr) \<and> dirty (bufDescTable s ! fr) \<longrightarrow>
      iolog s' = iolog s @ [IoWrite (fileH (bufDescTable s ! fr)) (bufPool s ! fr), IoRead f pn])"
proof (intro conjI allI impI)
  fix fr s'
  assume "allocBuf s = (Inr fr, s') \<and> valid (bufDescTable s ! fr) \<and> dirty (bufDescTable s ! fr)"
  then show "iolog s' = iolog s @ [IoWrite (fileH (bufDescTable s ! fr)) (bufPool s ! fr)]"
    by (auto simp: allocBuf_def dest: allocBuf_loop_writeback)
next
  fix fr s'
  assume a: "readPage f pn s = (Inr fr, s') \<and> hashTable_lookup (hashTable s) (f, pn) = Inl HashNotFound \<and>
        valid (bufDescTable s ! fr) \<and> dirty (bufDescTable s ! fr)"
  then obtain s1 d where ab: "allocBuf s = (Inr fr, s1)" and
      s': "s' = s1\<lparr>iolog := iolog s1 @ [IoRead f pn],
                   bufPool := (bufPool s1)[fr := \<lparr>page_number = pn, data = d\<rparr>],
                   hashTable := ((f, pn), fr) # hashTable s1,
                   bufDescTable := (bufDescTable s1)[fr := BufDesc_Set f pn (bufDescTable s1 ! fr)]\<rparr>"
    using readPage_miss by blast
  from ab a have "iolog s1 = iolog s @ [IoWrite (fileH (bufDescTable s ! fr)) (bufPool s ! fr)]"
    by (auto simp: allocBuf_def dest: allocBuf_loop_writeback)
  then show "iolog s' = iolog s @ [IoWrite (fileH (bufDescTable s ! fr)) (bufPool s ! fr), IoRead f pn]"
    by (simp add: s')
qed


theorem C3_writeback_witness:
  "readPage 2 1 (BufMgr_new 2 ex_disk) = (Inr 0, ex_pinned) \<and>
   unPinPage 2 1 True ex_pinned = (Inr (), ex_released) \<and>
   readPage 2 7 ex_released = (Inr 1, ex_full) \<and>
   readPage 2 8 ex_full = (Inr 0, ex_refilled) \<and>
   hashTable_lookup (hashTable ex_full) (2, 8) = Inl HashNotFound \<and>
   valid (bufDescTable ex_full ! 0) \<and> dirty (bufDescTable ex_full ! 0) \<and>
   bufPool ex_full ! 0 = \<lparr>page_number = 1, data = ''b''\<rparr> \<and>
   iolog ex_refilled = iolog ex_full @ [IoWrite 2 \<lparr>page_number = 1, data = ''b''\<rparr>, IoRead 2 8] \<and>
   bufPool ex_refilled ! 0 = \<lparr>page_number = 8, data = ''d''\<rparr>"
proof -
  have pre: "hashTable_lookup (hashTable ex_full) (2, 8) = Inl HashNotFound \<and>
      valid (bufDescTable ex_full ! 0) \<and> dirty (bufDescTable ex_full ! 0) \<and>
      bufPool ex_full ! 0 = \<lparr>page_number = 1, data = ''b''\<rparr> \<and>
      fileH (bufDescTable ex_full ! 0) = 2"
    by (simp add: ex_full_def hashTable_lookup_def)
  with C3_writeback [of ex_full 2 8] ex_refilled_reached
  have "iolog ex_refilled = iolog ex_full @ [IoWrite 2 \<lparr>page_number = 1, data = ''b''\<rparr>, IoRead 2 8]"
    by fastforce
  moreover have "bufPool ex_refilled ! 0 = \<lparr>page_number = 8, data = ''d''\<rparr>"
    by (simp add: ex_refilled_def)
  ultimately show ?thesis
    using pre ex_pinned_reached ex_released_reached ex_full_reached ex_refilled_reached
    by simp
qed

subsection \<open>The loop of flushFile, frame by frame\<close>

lemma flushFile_loop_done:
  "\<not> i < numBufs s \<Longrightarrow> flushFile_loop f i s = (Inr (), s)"
  by (subst flushFile_loop.simps) simp

lemma flushFile_loop_pinned:
  "i < numBufs s \<Longrightarrow> pinCnt (bufDescTable s ! i) \<noteq> 0 \<Longrightarrow>
     flushFile_loop f i s = (Inl PagePinned, s)"
  by (subst flushFile_loop.simps) simp

lemma flushFile_loop_bad:
  "i < numBufs s \<Longrightarrow> pinCnt (bufDescTable s ! i) = 0 \<Longrightarrow> \<not> valid (bufDescTable s ! i) \<Longrightarrow>
     flushFile_loop f i s = (Inl BadBuffer, s)"
  by (subst flushFile_loop.simps) simp

lemma flushFile_loop_step:
  "i < numBufs s \<Longrightarrow> pinCnt (bufDescTable s ! i) = 0 \<Longrightarrow> valid (bufDescTable s ! i) \<Longrightarrow>
     flushFile_loop f i s = flushFile_loop f (i + 1) (flush_frame f i s)"
  by (subst flushFile_loop.simps) (simp add: flush_frame_def Let_def)

lemma flush_frame_fields [simp]:
  "numBufs (flush_frame f i s) = numBufs s" "clockHand (flush_frame f i s) = clockHand s"
  "bufPool (flush_frame f i s) = bufPool s"
  "length (bufDescTable (flush_frame f i s)) = length (bufDescTable s)"
  "iolog (flush_frame f i s) =
     iolog s @ (if dirty (bufDescTable s ! i) then [IoWrite f (bufPool s ! i)] else [])"
  by (simp_all add: flush_frame_def Let_def split: sum.split)

lemma flush_frame_desc:
  "bufDescTable (flush_frame f i s) = (bufDescTable s)[i := BufDesc_clear (bufDescTable s ! i)]"
  by (simp add: flush_frame_def Let_def split: sum.split)

lemma flush_frame_hashTable:
  "map_of (hashTable (flush_frame f i s)) =
     (map_of (hashTable s))((f, page_number (bufPool s ! i)) := None)"
  by (auto simp: flush_frame_def Let_def hashTable_remove_def delete_conv' fun_eq_iff
           split: sum.split option.splits)

lemma flushed_refl: "flushed f i i s s"
  by (auto simp: flushed_def)

lemma flush_frame_flushed:
  "i < length (bufDescTable s) \<Longrightarrow> flushed f i (i + 1) s (flush_frame f i s)"
proof -
  assume len: "i < length (bufDescTable s)"
  have one: "(i \<le> j \<and> j < Suc i) = (j = i)" for j
    by arith
  from len show ?thesis
    by (auto simp: flushed_def flush_frame_desc flush_frame_hashTable one)
qed

lemma flushed_step:
  assumes a: "flushed f i (i + 1) s s1" and b: "flushed f (i + 1) k s1 s'" and ik: "i < k"
  shows "flushed f i k s s'"
proof -
  have same: "bufDescTable s1 ! j = bufDescTable s ! j" if "j \<noteq> i" for j
    using a that by (simp add: flushed_def)
  have pool: "bufPool s1 = bufPool s"
    using a by (simp add: flushed_def)
  have upt: "[i..<k] = i # [i + 1..<k]"
    using ik by (simp add: upt_conv_Cons)
  have filt: "filter (\<lambda>j. dirty (bufDescTable s1 ! j)) [i + 1..<k] =
              filter (\<lambda>j. dirty (bufDescTable s ! j)) [i + 1..<k]"
    by (rule filter_cong) (auto simp: same)
  have log1: "iolog s1 = iolog s @ map (\<lambda>j. IoWrite f (bufPool s ! j))
                 (filter (\<lambda>j. dirty (bufDescTable s ! j)) [i])"
    using a by (simp add: flushed_def)
  have log2: "iolog s' = iolog s1 @ map (\<lambda>j. IoWrite f (bufPool s ! j))
                 (filter (\<lambda>j. dirty (bufDescTable s ! j)) [i + 1..<k])"
    using b filt by (simp add: flushed_def pool)
  have log: "iolog s' = iolog s @ map (\<lambda>j. IoWrite f (bufPool s ! j))
                 (filter (\<lambda>j. dirty (bufDescTable s ! j)) [i..<k])"
    by (simp add: log1 log2 upt)
  have desc_in: "bufDescTable s' ! j = BufDesc_clear (bufDescTable s ! j)" if "i \<le> j" "j < k" for j
  proof (cases "j = i")
    case True
    with a b show ?thesis by (simp add: flushed_def)
  next
    case False
    with that b same show ?thesis by (simp add: flushed_def)
  qed
  have desc_out: "bufDescTable s' ! j = bufDescTable s ! j" if "\<not> (i \<le> j \<and> j < k)" for j
  proof -
    from that ik have "j \<noteq> i" "\<not> (i + 1 \<le> j \<and> j < k)" by auto
    with b same show ?thesis by (simp add: flushed_def)
  qed
  have gone: "map_of (hashTable s') (f, page_number (bufPool s ! j)) = None" if "i \<le> j" "j < k" for j
  proof (cases "j = i")
    case True
    with a b show ?thesis by (simp add: flushed_def)
  next
    case False
    with that b pool show ?thesis by (simp add: flushed_def)
  qed
  from a b log desc_in desc_out gone show ?thesis
    by (simp add: flushed_def)
qed

lemma flushFile_loop_induct [case_names frame]:
  assumes "\<And>f i s.
     (i < numBufs s \<Longrightarrow> pinCnt (bufDescTable s ! i) = 0 \<Longrightarrow> valid (bufDescTable s ! i) \<Longrightarrow>
        P f (i + 1) (flush_frame f i s)) \<Longrightarrow> P f i s"
  shows "P f i s"
proof (induction f i s rule: flushFile_loop.induct)
  case (1 f i s)
  show ?case
  proof (rule assms)
    assume "i < numBufs s" "pinCnt (bufDescTable s ! i) = 0" "valid (bufDescTable s ! i)"
    then show "P f (i + 1) (flush_frame f i s)"
      using "1.IH" [OF _ refl refl _ _ refl refl refl] by (simp add: flush_frame_def Let_def)
  qed
qed

lemma flushFile_loop_result:
  "flushFile_loop f i s = (r, s') \<Longrightarrow> i \<le> numBufs s \<Longrightarrow> length (bufDescTable s) = numBufs s \<Longrightarrow>
     \<exists>k. i \<le> k \<and> k \<le> numBufs s \<and> flushed f i k s s' \<and>
         (\<forall>j. i \<le> j \<and> j < k \<longrightarrow> pinCnt (bufDescTable s ! j) = 0 \<and> valid (bufDescTable s ! j)) \<and>
         (if k = numBufs s then r = Inr ()
          else if pinCnt (bufDescTable s ! k) \<noteq> 0 then r = Inl PagePinned
          else \<not> valid (bufDescTable s ! k) \<and> r = Inl BadBuffer)"
proof (induction f i s rule: flushFile_loop_induct)
  case (frame f i s)
  show ?case
  proof (cases "i < numBufs s")
    case False
    with frame.prems have "i = numBufs s" "r = Inr ()" "s' = s"
      by (simp_all add: flushFile_loop_done)
    then show ?thesis
      by (intro exI [of _ i]) (auto simp: flushed_refl)
  next
    case less: True
    show ?thesis
    proof (cases "pinCnt (bufDescTable s ! i) \<noteq> 0")
      case True
      with less frame.prems have "r = Inl PagePinned" "s' = s"
        by (simp_all add: flushFile_loop_pinned)
      with less True show ?thesis
        by (intro exI [of _ i]) (auto simp: flushed_refl)
    next
      case False
      then have pin: "pinCnt (bufDescTable s ! i) = 0" by simp
      show ?thesis
      proof (cases "valid (bufDescTable s ! i)")
        case False
        with less pin frame.prems have "r = Inl BadBuffer" "s' = s"
          by (simp_all add: flushFile_loop_bad)
        with less pin False show ?thesis
          by (intro exI [of _ i]) (auto simp: flushed_refl)
      next
        case True
        let ?s1 = "flush_frame f i s"
        from less pin True frame.prems have rec: "flushFile_loop f (i + 1) ?s1 = (r, s')"
          by (simp add: flushFile_loop_step)
        have "\<exists>k. i + 1 \<le> k \<and> k \<le> numBufs ?s1 \<and> flushed f (i + 1) k ?s1 s' \<and>
           (\<forall>j. i + 1 \<le> j \<and> j < k \<longrightarrow> pinCnt (bufDescTable ?s1 ! j) = 0 \<and> valid (bufDescTable ?s1 ! j)) \<and>
           (if k = numBufs ?s1 then r = Inr ()
            else if pinCnt (bufDescTable ?s1 ! k) \<noteq> 0 then r = Inl PagePinned
            else \<not> valid (bufDescTable ?s1 ! k) \<and> r = Inl BadBuffer)"
          using frame.IH [OF less pin True rec] less frame.prems
          by simp
        then obtain k where k: "i + 1 \<le> k" "k \<le> numBufs s" "flushed f (i + 1) k ?s1 s'"
          and unp: "\<forall>j. i + 1 \<le> j \<and> j < k \<longrightarrow>
                 pinCnt (bufDescTable ?s1 ! j) = 0 \<and> valid (bufDescTable ?s1 ! j)"
          and res: "if k = numBufs s then r = Inr ()
            else if pinCnt (bufDescTable ?s1 ! k) \<noteq> 0 then r = Inl PagePinned
            else \<not> valid (bufDescTable ?s1 ! k) \<and> r = Inl BadBuffer"
          by auto
        have same: "bufDescTable ?s1 ! j = bufDescTable s ! j" if "j \<noteq> i" for j
          using that by (simp add: flush_frame_desc)
        from less frame.prems have "i < length (bufDescTable s)"
          by simp
        then have "flushed f i (i + 1) s ?s1"
          by (rule flush_frame_flushed)
        with k have fl: "flushed f i k s s'"
          by (auto intro: flushed_step)
        have unp': "\<forall>j. i \<le> j \<and> j < k \<longrightarrow> pinCnt (bufDescTable s ! j) = 0 \<and> valid (bufDescTable s ! j)"
        proof (intro allI impI)
          fix j assume j: "i \<le> j \<and> j < k"
          show "pinCnt (bufDescTable s ! j) = 0 \<and> valid (bufDescTable s ! j)"
          proof (cases "j = i")
            case True with pin \<open>valid (bufDescTable s ! i)\<close> show ?thesis by simp
          next
            case False
            with j have "i + 1 \<le> j \<and> j < k" by simp
            with unp have "pinCnt (bufDescTable ?s1 ! j) = 0 \<and> valid (bufDescTable ?s1 ! j)"
              by blast
            with same [OF False] show ?thesis by simp
          qed
        qed
        from k have "k \<noteq> i" by simp
        then have "bufDescTable ?s1 ! k = bufDescTable s ! k" by (rule same)
        with res have res': "if k = numBufs s then r = Inr ()
            else if pinCnt (bufDescTable s ! k) \<noteq> 0 then r = Inl PagePinned
            else \<not> valid (bufDescTable s ! k) \<and> r = Inl BadBuffer"
          by (auto split: if_splits)
        from k fl unp' res' show ?thesis
          by (intro exI [of _ k]) simp
      qed
    qed
  qed
qed

subsection \<open>Flush\<close>

lemma ex_partial_reached: "flushFile 2 ex_full = (Inl PagePinned, ex_partial)"
  by (simp add: ex_full_def ex_partial_def eval_defs)

lemma ex_unpinned_reached: "unPinPage 2 7 False ex_full = (Inr (), ex_unpinned)"
  by (simp add: ex_full_def ex_unpinned_def eval_defs)

lemma ex_flushed_other_reached: "flushFile 1 ex_unpinned = (Inr (), ex_flushed_other)"
  by (simp add: ex_unpinned_def ex_flushed_other_def eval_defs)

lemma wf_ex_unpinned: "wf_BufMgr ex_unpinned"
  by (simp add: wf_BufMgr_def ex_unpinned_def)

text \<open>
  Where the loop of \<open>flushFile\<close> stops is fixed by the descriptors: at the first frame
  that is pinned or not valid, or at the end of the pool.
\<close>

lemma flushFile_stops:
  assumes wf: "wf_BufMgr s" and k: "k \<le> numBufs s"
    and before: "\<forall>j<k. pinCnt (bufDescTable s ! j) = 0 \<and> valid (bufDescTable s ! j)"
    and stop: "k = numBufs s \<or> pinCnt (bufDescTable s ! k) \<noteq> 0 \<or> \<not> valid (bufDescTable s ! k)"
  shows "flushed f 0 k s (snd (flushFile f s)) \<and>
         fst (flushFile f s) =
           (if k = numBufs s then Inr ()
            else if pinCnt (bufDescTable s ! k) \<noteq> 0 then Inl PagePinned else Inl BadBuffer)"
proof -
  obtain r s' where rs: "flushFile_loop f 0 s = (r, s')"
    by (cases "flushFile_loop f 0 s")
  from wf have len: "length (bufDescTable s) = numBufs s"
    by (simp add: wf_BufMgr_def)
  from flushFile_loop_result [OF rs _ len] obtain k' where
    k': "k' \<le> numBufs s" "flushed f 0 k' s s'"
    and unp: "\<forall>j. 0 \<le> j \<and> j < k' \<longrightarrow> pinCnt (bufDescTable s ! j) = 0 \<and> valid (bufDescTable s ! j)"
    and res: "if k' = numBufs s then r = Inr ()
          else if pinCnt (bufDescTable s ! k') \<noteq> 0 then r = Inl PagePinned
          else \<not> valid (bufDescTable s ! k') \<and> r = Inl BadBuffer"
    by auto
  have "k' = k"
  proof (rule ccontr)
    assume "k' \<noteq> k"
    then consider "k' < k" | "k < k'" by arith
    then show False
    proof cases
      case 1
      with before have "pinCnt (bufDescTable s ! k') = 0 \<and> valid (bufDescTable s ! k')"
        by simp
      moreover from 1 k have "k' \<noteq> numBufs s" by simp
      ultimately show False using res by (simp split: if_splits)
    next
      case 2
      with unp have "pinCnt (bufDescTable s ! k) = 0 \<and> valid (bufDescTable s ! k)"
        by simp
      moreover from 2 k' have "k \<noteq> numBufs s" by simp
      ultimately show False using stop by simp
    qed
  qed
  with k' res rs show ?thesis
    by (auto simp: flushFile_def split: if_splits)
qed


text \<open>
  A flush that stops at a pinned frame. Let frame \<open>k\<close> be pinned and let the loop reach
  it, that is, let every frame before it be unpinned and valid (an unpinned frame that is
  not valid stops the loop before with BadBuffer). Then \<open>flushFile\<close> fails with
  PagePinned, and the state it leaves is not the one it started from: the descriptors
  before \<open>k\<close> are cleared, the dirty ones among them were written through the file of the
  call, in frame order, and the key made of the file of the call and the page number of
  each of these frames is no longer in the page table. Frame \<open>k\<close> and the frames after it
  are untouched. For a frame that the file of the call owns, that key is the frame's own
  entry; for a frame of another file it is not.
\<close>

lemma flushFile_pinned_partial:
  assumes wf: "wf_BufMgr s" and k: "k < numBufs s"
    and pin: "pinCnt (bufDescTable s ! k) \<noteq> 0"
    and before: "\<forall>j<k. pinCnt (bufDescTable s ! j) = 0 \<and> valid (bufDescTable s ! j)"
  shows "fst (flushFile f s) = Inl PagePinned \<and>
         (\<forall>j<k. bufDescTable (snd (flushFile f s)) ! j = BufDesc_clear (bufDescTable s ! j)) \<and>
         (\<forall>j. k \<le> j \<longrightarrow> bufDescTable (snd (flushFile f s)) ! j = bufDescTable s ! j) \<and>
         iolog (snd (flushFile f s)) =
           iolog s @ map (\<lambda>j. IoWrite f (bufPool s ! j))
                       (filter (\<lambda>j. dirty (bufDescTable s ! j)) [0..<k]) \<and>
         (\<forall>j<k. hashTable_lookup (hashTable (snd (flushFile f s))) (f, page_number (bufPool s ! j)) =
                 Inl HashNotFound) \<and>
         bufPool (snd (flushFile f s)) = bufPool s"
proof -
  from k have "k \<le> numBufs s" by simp
  from flushFile_stops [OF wf this before] pin k
  have fl: "flushed f 0 k s (snd (flushFile f s))" and r: "fst (flushFile f s) = Inl PagePinned"
    by simp_all
  from fl r show ?thesis
    by (simp add: flushed_def hashTable_lookup_def)
qed

lemma flushFile_pinned_partial_example:
  "wf_BufMgr ex_full \<and> (1::nat) < numBufs ex_full \<and> pinCnt (bufDescTable ex_full ! 1) \<noteq> 0 \<and>
   pinCnt (bufDescTable ex_full ! 0) = 0 \<and> valid (bufDescTable ex_full ! 0) \<and>
   flushFile 2 ex_full = (Inl PagePinned, ex_partial) \<and>
   bufDescTable ex_partial ! 0 = BufDesc_clear (bufDescTable ex_full ! 0) \<and>
   bufDescTable ex_partial ! 1 = bufDescTable ex_full ! 1 \<and>
   iolog ex_partial = iolog ex_full @ [IoWrite 2 \<lparr>page_number = 1, data = ''b''\<rparr>] \<and>
   hashTable_lookup (hashTable ex_full) (2, 1) = Inr 0 \<and>
   hashTable_lookup (hashTable ex_partial) (2, 1) = Inl HashNotFound"
proof -
  have pre: "(1::nat) < numBufs ex_full \<and> pinCnt (bufDescTable ex_full ! 1) \<noteq> 0 \<and>
      (\<forall>j<1. pinCnt (bufDescTable ex_full ! j) = 0 \<and> valid (bufDescTable ex_full ! j))"
    by (simp add: ex_full_def)
  then have "fst (flushFile 2 ex_full) = Inl PagePinned \<and>
      (\<forall>j<1. bufDescTable (snd (flushFile 2 ex_full)) ! j = BufDesc_clear (bufDescTable ex_full ! j)) \<and>
      (\<forall>j. 1 \<le> j \<longrightarrow> bufDescTable (snd (flushFile 2 ex_full)) ! j = bufDescTable ex_full ! j)"
    using flushFile_pinned_partial [OF wf_ex_full, of 1 2] by simp
  then have "bufDescTable ex_partial ! 0 = BufDesc_clear (bufDescTable ex_full ! 0) \<and>
      bufDescTable ex_partial ! 1 = bufDescTable ex_full ! 1"
    by (simp add: ex_partial_reached)
  moreover have "iolog ex_partial = iolog ex_full @ [IoWrite 2 \<lparr>page_number = 1, data = ''b''\<rparr>] \<and>
      hashTable_lookup (hashTable ex_full) (2, 1) = Inr 0 \<and>
      hashTable_lookup (hashTable ex_partial) (2, 1) = Inl HashNotFound"
    by (simp add: ex_partial_def ex_full_def hashTable_lookup_def)
  ultimately show ?thesis
    using pre wf_ex_full ex_partial_reached by simp
qed

lemma ex_full_reachable:
  "reachable 2 ex_disk [Fetch 2 1, Release 2 1 True, Fetch 2 7] = ex_full"
  by (simp add: reachable_def ex_pinned_reached ex_released_reached ex_full_reached
        del: One_nat_def)

lemma ex_partial_other_reached: "flushFile 1 ex_full = (Inl PagePinned, ex_partial_other)"
  by (simp add: ex_full_def ex_partial_other_def eval_defs)

text \<open>
  C6 does not hold of the code for a processed frame that another file owns. The failure
  with PagePinned at the first pinned frame and the partial effect are as the claim says,
  but a frame processed before it is not always removed from the page table, and its
  content is not always written back to its file. On a pool of two frames: fetch page 1 of
  file 2 and release it as modified, fetch page 7 of file 2 and keep it, flush file 1. The
  flush stops at the pinned frame 1 with PagePinned. Frame 0 was processed before: its
  descriptor is cleared, but its entry (file 2, page 1) is still in the page table, now
  naming a frame that is not valid, and its modified content was written into file 1, not
  into file 2.
\<close>

theorem C6_processed_frame_keeps_entry:
  "reachable 2 ex_disk [Fetch 2 1, Release 2 1 True, Fetch 2 7] = ex_full \<and>
   pinCnt (bufDescTable ex_full ! 0) = 0 \<and> valid (bufDescTable ex_full ! 0) \<and>
   dirty (bufDescTable ex_full ! 0) \<and>
   (fileH (bufDescTable ex_full ! 0), pageNo (bufDescTable ex_full ! 0)) = (2, 1) \<and>
   pinCnt (bufDescTable ex_full ! 1) = 1 \<and>
   hashTable_lookup (hashTable ex_full) (2, 1) = Inr 0 \<and>
   flushFile 1 ex_full = (Inl PagePinned, ex_partial_other) \<and>
   \<not> valid (bufDescTable ex_partial_other ! 0) \<and>
   hashTable_lookup (hashTable ex_partial_other) (2, 1) = Inr 0 \<and>
   iolog ex_partial_other = iolog ex_full @ [IoWrite 1 \<lparr>page_number = 1, data = ''b''\<rparr>]"
  by (intro conjI ex_full_reachable ex_partial_other_reached)
     (simp_all add: ex_full_def ex_partial_other_def hashTable_lookup_def)

text \<open>
  C7. \<open>flushFile f\<close> never reads the owner of a frame. When it succeeds, every descriptor
  of the pool is cleared; every frame that was dirty was written through \<open>f\<close>, whoever owned
  it, and nothing else was asked of the file layer; the page-table entries of files other
  than \<open>f\<close> are as before, and each of them now names a frame that is not valid.
\<close>

theorem C7_flush_ignores_owner:
  assumes wf: "wf_BufMgr s" and ok: "flushFile f s = (Inr (), s')"
  shows "(\<forall>j<numBufs s. bufDescTable s' ! j = BufDesc_clear (bufDescTable s ! j) \<and>
                         \<not> valid (bufDescTable s' ! j)) \<and>
         iolog s' = iolog s @ map (\<lambda>j. IoWrite f (bufPool s ! j))
                               (filter (\<lambda>j. dirty (bufDescTable s ! j)) [0..<numBufs s]) \<and>
         (\<forall>j<numBufs s. dirty (bufDescTable s ! j) \<and> fileH (bufDescTable s ! j) \<noteq> f \<longrightarrow>
            IoWrite f (bufPool s ! j) \<in> set (iolog s')) \<and>
         (\<forall>g p. g \<noteq> f \<longrightarrow>
            hashTable_lookup (hashTable s') (g, p) = hashTable_lookup (hashTable s) (g, p)) \<and>
         (\<forall>g p fr. g \<noteq> f \<and> hashTable_lookup (hashTable s) (g, p) = Inr fr \<longrightarrow>
            hashTable_lookup (hashTable s') (g, p) = Inr fr \<and> fr < numBufs s \<and>
            \<not> valid (bufDescTable s' ! fr))"
proof -
  from wf have len: "length (bufDescTable s) = numBufs s"
    by (simp add: wf_BufMgr_def)
  from ok have rs: "flushFile_loop f 0 s = (Inr (), s')"
    by (simp add: flushFile_def)
  from flushFile_loop_result [OF rs _ len] have fl: "flushed f 0 (numBufs s) s s'"
    by (auto split: if_splits)
  then have cleared: "\<forall>j<numBufs s. bufDescTable s' ! j = BufDesc_clear (bufDescTable s ! j)"
    by (simp add: flushed_def)
  then have inval: "\<forall>j<numBufs s. \<not> valid (bufDescTable s' ! j)"
    by (simp add: BufDesc_clear_def)
  from fl have log: "iolog s' = iolog s @ map (\<lambda>j. IoWrite f (bufPool s ! j))
                               (filter (\<lambda>j. dirty (bufDescTable s ! j)) [0..<numBufs s])"
    by (simp add: flushed_def)
  have written: "\<forall>j<numBufs s. dirty (bufDescTable s ! j) \<and> fileH (bufDescTable s ! j) \<noteq> f \<longrightarrow>
            IoWrite f (bufPool s ! j) \<in> set (iolog s')"
    by (auto simp: log)
  from fl have other: "\<forall>g p. g \<noteq> f \<longrightarrow>
            hashTable_lookup (hashTable s') (g, p) = hashTable_lookup (hashTable s) (g, p)"
    by (simp add: flushed_def hashTable_lookup_def)
  have stale: "\<forall>g p fr. g \<noteq> f \<and> hashTable_lookup (hashTable s) (g, p) = Inr fr \<longrightarrow>
            hashTable_lookup (hashTable s') (g, p) = Inr fr \<and> fr < numBufs s \<and>
            \<not> valid (bufDescTable s' ! fr)"
  proof (intro allI impI)
    fix g p fr assume a: "g \<noteq> f \<and> hashTable_lookup (hashTable s) (g, p) = Inr fr"
    with wf have "fr < numBufs s"
      using wf_lookup_in_range [of s "(g, p)" fr] by (simp add: len)
    with a other inval show "hashTable_lookup (hashTable s') (g, p) = Inr fr \<and> fr < numBufs s \<and>
            \<not> valid (bufDescTable s' ! fr)"
      by simp
  qed
  from cleared inval log written other stale show ?thesis
    by blast
qed

theorem C7_flush_ignores_owner_witness:
  "wf_BufMgr ex_unpinned \<and> flushFile 1 ex_unpinned = (Inr (), ex_flushed_other) \<and>
   dirty (bufDescTable ex_unpinned ! 0) \<and> fileH (bufDescTable ex_unpinned ! 0) = 2 \<and>
   \<not> valid (bufDescTable ex_flushed_other ! 0) \<and> \<not> valid (bufDescTable ex_flushed_other ! 1) \<and>
   IoWrite 1 (bufPool ex_unpinned ! 0) \<in> set (iolog ex_flushed_other) \<and>
   hashTable_lookup (hashTable ex_unpinned) (2, 1) = Inr 0 \<and>
   hashTable_lookup (hashTable ex_flushed_other) (2, 1) = Inr 0"
proof -
  have pre: "dirty (bufDescTable ex_unpinned ! 0) \<and> fileH (bufDescTable ex_unpinned ! 0) = 2 \<and>
      fileH (bufDescTable ex_unpinned ! 0) \<noteq> 1 \<and> (0::nat) < numBufs ex_unpinned \<and>
      (1::nat) < numBufs ex_unpinned \<and> hashTable_lookup (hashTable ex_unpinned) (2, 1) = Inr 0"
    by (simp add: ex_unpinned_def hashTable_lookup_def)
  note c7 = C7_flush_ignores_owner [OF wf_ex_unpinned ex_flushed_other_reached]
  from c7 pre have "\<not> valid (bufDescTable ex_flushed_other ! 0)" "\<not> valid (bufDescTable ex_flushed_other ! 1)"
    by blast+
  moreover from c7 pre have "IoWrite 1 (bufPool ex_unpinned ! 0) \<in> set (iolog ex_flushed_other)"
    by blast
  moreover have "(2::nat) \<noteq> 1" by simp
  with c7 pre have "hashTable_lookup (hashTable ex_flushed_other) (2, 1) = Inr 0"
    by blast
  ultimately show ?thesis
    using pre wf_ex_unpinned ex_flushed_other_reached by simp
qed

lemma wf_BufMgr_new: "wf_BufMgr (BufMgr_new bufs dk)"
  by (simp add: wf_BufMgr_def BufMgr_new_def)

lemma BufMgr_new_desc: "i < bufs \<Longrightarrow> bufDescTable (BufMgr_new bufs dk) ! i = BufDesc_init i"
  by (simp add: BufMgr_new_def)

text \<open>
  C10, as the code has it. The pin check comes first, so a frame that is not valid stops the
  loop with BadBuffer when it is unpinned and the loop reaches it. \<open>flushFile\<close> succeeds
  exactly when every frame of the pool is unpinned and valid. On a pool with a frame that
  is not valid it fails, with BadBuffer or with PagePinned, whichever frame the loop meets
  first: BadBuffer when that frame is unpinned, PagePinned when it is pinned. A new manager
  with at least one frame fails with BadBuffer at frame 0.
\<close>

theorem C10_flush_bad_buffer:
  "(wf_BufMgr s \<longrightarrow>
      (\<forall>k. k < numBufs s \<and> pinCnt (bufDescTable s ! k) = 0 \<and> \<not> valid (bufDescTable s ! k) \<and>
           (\<forall>j<k. pinCnt (bufDescTable s ! j) = 0 \<and> valid (bufDescTable s ! j)) \<longrightarrow>
         fst (flushFile f s) = Inl BadBuffer) \<and>
      (\<forall>k. k < numBufs s \<and> pinCnt (bufDescTable s ! k) \<noteq> 0 \<and>
           (\<forall>j<k. pinCnt (bufDescTable s ! j) = 0 \<and> valid (bufDescTable s ! j)) \<longrightarrow>
         fst (flushFile f s) = Inl PagePinned) \<and>
      (fst (flushFile f s) = Inr () \<longleftrightarrow>
         (\<forall>j<numBufs s. pinCnt (bufDescTable s ! j) = 0 \<and> valid (bufDescTable s ! j))) \<and>
      ((\<exists>j<numBufs s. \<not> valid (bufDescTable s ! j)) \<longrightarrow>
         fst (flushFile f s) = Inl BadBuffer \<or> fst (flushFile f s) = Inl PagePinned)) \<and>
   (0 < bufs \<longrightarrow> fst (flushFile f (BufMgr_new bufs dk)) = Inl BadBuffer)"
proof (intro conjI impI allI)
  fix k
  assume wf: "wf_BufMgr s"
    and a: "k < numBufs s \<and> pinCnt (bufDescTable s ! k) = 0 \<and> \<not> valid (bufDescTable s ! k) \<and>
           (\<forall>j<k. pinCnt (bufDescTable s ! j) = 0 \<and> valid (bufDescTable s ! j))"
  then have "k \<le> numBufs s" by simp
  from flushFile_stops [OF wf this, of f] a show "fst (flushFile f s) = Inl BadBuffer"
    by simp
next
  fix k
  assume wf: "wf_BufMgr s"
    and a: "k < numBufs s \<and> pinCnt (bufDescTable s ! k) \<noteq> 0 \<and>
           (\<forall>j<k. pinCnt (bufDescTable s ! j) = 0 \<and> valid (bufDescTable s ! j))"
  then have "k \<le> numBufs s" by simp
  from flushFile_stops [OF wf this, of f] a show "fst (flushFile f s) = Inl PagePinned"
    by simp
next
  assume wf: "wf_BufMgr s"
  then have len: "length (bufDescTable s) = numBufs s"
    by (simp add: wf_BufMgr_def)
  obtain r s' where rs: "flushFile_loop f 0 s = (r, s')"
    by (cases "flushFile_loop f 0 s")
  from flushFile_loop_result [OF rs _ len] obtain k where
    k: "k \<le> numBufs s"
    and unp: "\<forall>j. 0 \<le> j \<and> j < k \<longrightarrow> pinCnt (bufDescTable s ! j) = 0 \<and> valid (bufDescTable s ! j)"
    and res: "if k = numBufs s then r = Inr ()
          else if pinCnt (bufDescTable s ! k) \<noteq> 0 then r = Inl PagePinned
          else \<not> valid (bufDescTable s ! k) \<and> r = Inl BadBuffer"
    by auto
  have r: "fst (flushFile f s) = r"
    by (simp add: flushFile_def rs)
  have stop: "k = numBufs s \<longleftrightarrow> r = Inr ()"
    using res by (cases "k = numBufs s"; cases "pinCnt (bufDescTable s ! k) \<noteq> 0"; simp)
  have err: "k \<noteq> numBufs s \<Longrightarrow> r = Inl BadBuffer \<or> r = Inl PagePinned"
    using res by (cases "k = numBufs s"; cases "pinCnt (bufDescTable s ! k) \<noteq> 0"; simp)
  show "fst (flushFile f s) = Inr () \<longleftrightarrow>
         (\<forall>j<numBufs s. pinCnt (bufDescTable s ! j) = 0 \<and> valid (bufDescTable s ! j))"
  proof
    assume "fst (flushFile f s) = Inr ()"
    with r stop have "k = numBufs s" by simp
    with unp show "\<forall>j<numBufs s. pinCnt (bufDescTable s ! j) = 0 \<and> valid (bufDescTable s ! j)"
      by simp
  next
    assume "\<forall>j<numBufs s. pinCnt (bufDescTable s ! j) = 0 \<and> valid (bufDescTable s ! j)"
    with flushFile_stops [OF wf le_refl, of f] show "fst (flushFile f s) = Inr ()"
      by simp
  qed
  {
    assume "\<exists>j<numBufs s. \<not> valid (bufDescTable s ! j)"
    then obtain j where j: "j < numBufs s" "\<not> valid (bufDescTable s ! j)" by blast
    have "k \<noteq> numBufs s"
    proof
      assume "k = numBufs s"
      with unp j show False by simp
    qed
    from err [OF this] show "fst (flushFile f s) = Inl BadBuffer \<or> fst (flushFile f s) = Inl PagePinned"
      by (simp add: r)
  }
next
  assume pos: "0 < bufs"
  have "numBufs (BufMgr_new bufs dk) = bufs"
    by (simp add: BufMgr_new_def)
  with flushFile_stops [OF wf_BufMgr_new, of 0 bufs dk f] pos BufMgr_new_desc [OF pos, of dk]
  show "fst (flushFile f (BufMgr_new bufs dk)) = Inl BadBuffer"
    by (simp add: BufDesc_init_def)
qed

theorem C10_flush_bad_buffer_witness:
  "wf_BufMgr ex_released \<and> (1::nat) < numBufs ex_released \<and>
   pinCnt (bufDescTable ex_released ! 1) = 0 \<and> \<not> valid (bufDescTable ex_released ! 1) \<and>
   pinCnt (bufDescTable ex_released ! 0) = 0 \<and> valid (bufDescTable ex_released ! 0) \<and>
   fst (flushFile 2 ex_released) = Inl BadBuffer \<and>
   (0::nat) < 2 \<and> fst (flushFile 2 (BufMgr_new 2 ex_disk)) = Inl BadBuffer"
proof -
  have pre: "(1::nat) < numBufs ex_released \<and>
      pinCnt (bufDescTable ex_released ! 1) = 0 \<and> \<not> valid (bufDescTable ex_released ! 1) \<and>
      (\<forall>j<1. pinCnt (bufDescTable ex_released ! j) = 0 \<and> valid (bufDescTable ex_released ! j))"
    by (simp add: ex_released_def BufDesc_init_def)
  note c10 = C10_flush_bad_buffer [of ex_released 2 2 ex_disk]
  from c10 wf_ex_released pre have "fst (flushFile 2 ex_released) = Inl BadBuffer"
    by blast
  moreover from c10 have "fst (flushFile 2 (BufMgr_new 2 ex_disk)) = Inl BadBuffer"
    by simp
  ultimately show ?thesis
    using pre wf_ex_released by simp
qed

text \<open>
  The claim C10 as written says BadBuffer for every pool with a frame that is not valid. In
  \<open>ex_pinned\<close> frame 1 is not valid, but the loop meets the pinned frame 0 first and the
  failure is PagePinned.
\<close>

theorem C10_invalid_frame_behind_pinned_counterexample:
  "(1::nat) < numBufs ex_pinned \<and> \<not> valid (bufDescTable ex_pinned ! 1) \<and>
   fst (flushFile 2 ex_pinned) = Inl PagePinned \<and> fst (flushFile 2 ex_pinned) \<noteq> Inl BadBuffer"
  by (simp add: ex_pinned_def eval_defs)

subsection \<open>The three examples, step by step\<close>

lemma BufMgr_new_3:
  "BufMgr_new 3 dk =
     \<lparr>numBufs = 3, clockHand = 2, hashTable = [],
      bufDescTable = [BufDesc_init 0, BufDesc_init 1, BufDesc_init 2],
      bufPool = [Page_default, Page_default, Page_default], disk = dk, iolog = []\<rparr>"
proof -
  have "[0..<3] = [0, Suc 0, 2]"
    by (simp add: upt_rec)
  moreover have "replicate 3 Page_default = [Page_default, Page_default, Page_default]"
    by (simp add: numeral_3_eq_3)
  ultimately show ?thesis
    by (simp add: BufMgr_new_def)
qed

lemma ex_clean_reached: "unPinPage 2 1 False ex_pinned = (Inr (), ex_clean)"
  by (simp add: ex_pinned_def ex_clean_def eval_defs)

lemma ex_two_files_reached: "readPage 1 1 ex_clean = (Inr 1, ex_two_files)"
  by (simp add: ex_clean_def ex_two_files_def eval_defs)

lemma ex_flush_failed_reached: "flushFile 1 ex_two_files = (Inl PagePinned, ex_flush_failed)"
  by (simp add: ex_two_files_def ex_flush_failed_def eval_defs)

lemma ex_duplicate_reached: "readPage 1 1 ex_flush_failed = (Inr 0, ex_duplicate)"
  by (simp add: ex_flush_failed_def ex_duplicate_def eval_defs)

lemma ex3_a_reached: "readPage 2 1 (BufMgr_new 3 ex_disk) = (Inr 0, ex3_a)"
  by (simp add: BufMgr_new_3 ex3_a_def eval_defs)

lemma ex3_b_reached: "unPinPage 2 1 False ex3_a = (Inr (), ex3_b)"
  by (simp add: ex3_a_def ex3_b_def eval_defs)

lemma ex3_c_reached: "readPage 2 7 ex3_b = (Inr 1, ex3_c)"
  by (simp add: ex3_b_def ex3_c_def eval_defs)

lemma ex3_d_reached: "readPage 1 1 ex3_c = (Inr 2, ex3_d)"
  by (simp add: ex3_c_def ex3_d_def eval_defs)

lemma ex3_e_reached: "unPinPage 1 1 False ex3_d = (Inr (), ex3_e)"
  by (simp add: ex3_d_def ex3_e_def eval_defs)

lemma ex3_f_reached: "flushFile 1 ex3_e = (Inl PagePinned, ex3_f)"
  by (simp add: ex3_e_def ex3_f_def eval_defs)

lemma ex3_g_reached: "readPage 2 8 ex3_f = (Inr 0, ex3_g)"
  by (simp add: ex3_f_def ex3_g_def eval_defs)

lemma ex3_h_reached: "readPage 2 9 ex3_g = (Inl HashNotFound, ex3_h)"
  by (simp add: ex3_g_def ex3_h_def eval_defs)

lemma ex3_h_search: "allocBuf ex3_g = (Inl HashNotFound, ex3_h)"
  by (simp add: ex3_g_def ex3_h_def eval_defs)

lemma ex3_two_pinned_reached: "readPage 2 7 ex3_a = (Inr 1, ex3_two_pinned)"
  by (simp add: ex3_a_def ex3_two_pinned_def eval_defs)

lemma ex3_all_pinned_reached: "readPage 2 8 ex3_two_pinned = (Inr 2, ex3_all_pinned)"
  by (simp add: ex3_two_pinned_def ex3_all_pinned_def eval_defs)

lemma ex3_exceeded_reached: "readPage 2 9 ex3_all_pinned = (Inl BufferExceeded, ex3_exceeded)"
  by (simp add: ex3_all_pinned_def ex3_exceeded_def eval_defs)

text \<open>
  The scenario of the spec for the bound: a pool of three frames, four distinct pages of
  one file fetched and none released. The fourth fetch fails with BufferExceeded and the
  three pages stay pinned.
\<close>

lemma fourth_fetch_exceeds:
  "readPage 2 1 (BufMgr_new 3 ex_disk) = (Inr 0, ex3_a) \<and>
   readPage 2 7 ex3_a = (Inr 1, ex3_two_pinned) \<and>
   readPage 2 8 ex3_two_pinned = (Inr 2, ex3_all_pinned) \<and>
   readPage 2 9 ex3_all_pinned = (Inl BufferExceeded, ex3_exceeded) \<and>
   map pinCnt (bufDescTable ex3_exceeded) = [1, 1, 1]"
  by (intro conjI ex3_a_reached ex3_two_pinned_reached ex3_all_pinned_reached ex3_exceeded_reached)
     (simp add: ex3_exceeded_def)

subsection \<open>Every operation keeps the state well-formed\<close>

lemma wf_table:
  "numBufs s' = numBufs s \<Longrightarrow> length (bufDescTable s') = length (bufDescTable s) \<Longrightarrow>
   length (bufPool s') = length (bufPool s) \<Longrightarrow> hashTable s' = hashTable s \<Longrightarrow>
   wf_BufMgr s \<Longrightarrow> wf_BufMgr s'"
  by (simp add: wf_BufMgr_def)

lemma hashTable_remove_distinct:
  "hashTable_remove k ht = Inr ht' \<Longrightarrow> distinct (map fst ht) \<Longrightarrow> distinct (map fst ht')"
  by (auto simp: hashTable_remove_def distinct_delete split: option.splits)

lemma wf_remove:
  assumes "wf_BufMgr s" and "hashTable_remove k (hashTable s) = Inr ht"
  shows "wf_BufMgr (s\<lparr>hashTable := ht\<rparr>)"
proof -
  from assms(2) have "set ht \<subseteq> set (hashTable s)"
    by (rule hashTable_remove_subset)
  with assms(1) have "list_all (\<lambda>kv. snd kv < numBufs s) ht"
    by (auto simp: wf_BufMgr_def list_all_iff)
  with assms hashTable_remove_distinct [OF assms(2)] show ?thesis
    by (simp add: wf_BufMgr_def)
qed

lemma wf_insert:
  assumes "wf_BufMgr s" and "hashTable_insert k fr (hashTable s) = Inr ht" and "fr < numBufs s"
  shows "wf_BufMgr (s\<lparr>hashTable := ht\<rparr>)"
proof -
  from assms(2) have ht: "ht = (k, fr) # hashTable s" and none: "map_of (hashTable s) k = None"
    by (auto simp: hashTable_insert_def split: option.splits)
  from none have "k \<notin> fst ` set (hashTable s)"
    by (simp add: map_of_eq_None_iff)
  with assms(1,3) show ?thesis
    by (simp add: wf_BufMgr_def ht)
qed

lemma wf_second_chance: "wf_BufMgr s \<Longrightarrow> wf_BufMgr (second_chance s)"
  by (rule wf_table [of _ s]) simp_all

lemma wf_advanceClock: "wf_BufMgr s \<Longrightarrow> wf_BufMgr (advanceClock s)"
  by (rule wf_table [of _ s]) simp_all

lemma wf_written_cleared: "wf_BufMgr s \<Longrightarrow> wf_BufMgr (written_cleared s)"
  by (rule wf_table [of _ s]) simp_all

lemma wf_allocBuf_loop:
  "allocBuf_loop c s = (r, s') \<Longrightarrow> wf_BufMgr s \<Longrightarrow> wf_BufMgr s'"
proof (induction c s rule: allocBuf_loop_induct)
  case (round count s)
  show ?case
  proof (cases rule: allocBuf_loop_cases [of s count])
    case exceeded
    with round.prems show ?thesis by (simp add: allocBuf_loop_exceeded)
  next
    case invalid
    with round.prems show ?thesis
      by (auto simp: allocBuf_loop_invalid intro: wf_advanceClock)
  next
    case referenced
    with round.prems round.IH(1) show ?thesis
      by (simp add: allocBuf_loop_referenced wf_second_chance)
  next
    case pinned
    with round.prems round.IH(2) show ?thesis
      by (simp add: allocBuf_loop_pinned wf_advanceClock)
  next
    case evict
    show ?thesis
    proof (cases "hashTable_remove (fileH (inspected s), page_number (bufPool s ! hand s)) (hashTable s)")
      case (Inl e)
      with evict round.prems show ?thesis
        by (auto simp: allocBuf_loop_evict intro: wf_written_cleared)
    next
      case (Inr ht)
      with evict round.prems have s': "s' = (written_cleared s)\<lparr>hashTable := ht\<rparr>"
        by (auto simp: allocBuf_loop_evict)
      from Inr have "hashTable_remove (fileH (inspected s), page_number (bufPool s ! hand s))
                       (hashTable (written_cleared s)) = Inr ht"
        by simp
      with wf_written_cleared [OF round.prems(2)] show ?thesis
        unfolding s' by (rule wf_remove)
    qed
  qed
qed

lemma wf_allocBuf: "wf_BufMgr s \<Longrightarrow> wf_BufMgr (snd (allocBuf s))"
  by (cases "allocBuf s") (auto simp: allocBuf_def dest: wf_allocBuf_loop)

lemma wf_unPinPage: "wf_BufMgr s \<Longrightarrow> wf_BufMgr (snd (unPinPage f pn dty s))"
  by (auto simp: unPinPage_def Let_def wf_BufMgr_def split: sum.splits)

lemma wf_fill:
  assumes wf: "wf_BufMgr s1" and fr: "fr < numBufs s1"
  shows "wf_BufMgr (snd
     (let s3 = s1\<lparr>bufPool := (bufPool s1)[fr := pg]\<rparr>
      in case hashTable_insert (f, pn) fr (hashTable s3) of
           Inl e \<Rightarrow> (Inl e, s3)
         | Inr ht \<Rightarrow>
             (let s4 = s3\<lparr>hashTable := ht\<rparr>
              in (Inr x,
                  s4\<lparr>bufDescTable :=
                       (bufDescTable s4)[fr := BufDesc_Set f pn (bufDescTable s4 ! fr)]\<rparr>))))"
proof (cases "hashTable_insert (f, pn) fr (hashTable s1)")
  case (Inl e)
  with wf show ?thesis
    by (simp add: wf_BufMgr_def)
next
  case (Inr ht)
  from wf_insert [OF wf Inr fr] Inr show ?thesis
    by (simp add: wf_BufMgr_def)
qed

lemma wf_readPage: "wf_BufMgr s \<Longrightarrow> wf_BufMgr (snd (readPage f pn s))"
proof (cases "hashTable_lookup (hashTable s) (f, pn)")
  case (Inr k)
  assume "wf_BufMgr s"
  with readPage_hit [OF Inr] show ?thesis
    by (simp add: wf_BufMgr_def)
next
  case (Inl e)
  assume wf: "wf_BufMgr s"
  obtain r s1 where ab: "allocBuf s = (r, s1)"
    by (cases "allocBuf s")
  with wf_allocBuf [OF wf] have wf1: "wf_BufMgr s1" by simp
  show ?thesis
  proof (cases r)
    case (Inl e')
    with \<open>hashTable_lookup (hashTable s) (f, pn) = Inl e\<close> ab wf1 show ?thesis
      by (simp add: readPage_def)
  next
    case (Inr fr)
    with ab allocBuf_loop_victim [of 1 s fr s1] allocBuf_loop_keeps [of 1 s r s1]
    have fr: "fr < numBufs s1"
      by (simp add: allocBuf_def)
    show ?thesis
    proof (cases "map_of (disk s1) (f, pn)")
      case None
      with \<open>hashTable_lookup (hashTable s) (f, pn) = Inl e\<close> ab Inr wf1 show ?thesis
        by (simp add: readPage_def File_readPage_def)
    next
      case (Some d)
      let ?s2 = "s1\<lparr>iolog := iolog s1 @ [IoRead f pn]\<rparr>"
      from wf1 have wf2: "wf_BufMgr ?s2"
        by (simp add: wf_BufMgr_def)
      from fr have "fr < numBufs ?s2" by simp
      from wf_fill [OF wf2 this, where pg = "\<lparr>page_number = pn, data = d\<rparr>" and f = f and pn = pn and x = fr]
        \<open>hashTable_lookup (hashTable s) (f, pn) = Inl e\<close> ab Inr Some
      show ?thesis
        by (simp add: readPage_def File_readPage_def)
    qed
  qed
qed

lemma wf_allocPage: "wf_BufMgr s \<Longrightarrow> wf_BufMgr (snd (allocPage f s))"
proof -
  assume wf: "wf_BufMgr s"
  obtain newPage s0 where al: "File_allocatePage f s = (newPage, s0)"
    by (cases "File_allocatePage f s")
  with wf have wf0: "wf_BufMgr s0"
    by (auto simp: File_allocatePage_def Let_def wf_BufMgr_def)
  obtain r s1 where ab: "allocBuf s0 = (r, s1)"
    by (cases "allocBuf s0")
  with wf_allocBuf [OF wf0] have wf1: "wf_BufMgr s1" by simp
  show ?thesis
  proof (cases r)
    case (Inl e)
    with al ab wf1 show ?thesis
      by (simp add: allocPage_def)
  next
    case (Inr fr)
    with ab allocBuf_loop_victim [of 1 s0 fr s1] allocBuf_loop_keeps [of 1 s0 r s1]
    have fr: "fr < numBufs s1"
      by (simp add: allocBuf_def)
    from wf_fill [OF wf1 fr, where pg = newPage and f = f and pn = "page_number newPage"
                    and x = "(page_number newPage, fr)"] al ab Inr
    show ?thesis
      by (simp add: allocPage_def Let_def)
  qed
qed

lemma wf_flush_frame: "wf_BufMgr s \<Longrightarrow> wf_BufMgr (flush_frame f i s)"
proof -
  assume wf: "wf_BufMgr s"
  let ?s1 = "if dirty (bufDescTable s ! i) then File_writePage f (bufPool s ! i) s else s"
  from wf have wf1: "wf_BufMgr ?s1"
    by (simp add: wf_BufMgr_def)
  have "wf_BufMgr (case hashTable_remove (f, page_number (bufPool s ! i)) (hashTable ?s1) of
                  Inl _ \<Rightarrow> ?s1
                | Inr ht \<Rightarrow> ?s1\<lparr>hashTable := ht\<rparr>)"
    using wf1 by (auto split: sum.split intro: wf_remove)
  then show ?thesis
    by (simp add: flush_frame_def Let_def wf_BufMgr_def)
qed

lemma wf_flushFile_loop:
  "flushFile_loop f i s = (r, s') \<Longrightarrow> wf_BufMgr s \<Longrightarrow> wf_BufMgr s'"
proof (induction f i s rule: flushFile_loop_induct)
  case (frame f i s)
  show ?case
  proof (cases "i < numBufs s \<and> pinCnt (bufDescTable s ! i) = 0 \<and> valid (bufDescTable s ! i)")
    case True
    with frame.prems frame.IH show ?thesis
      by (simp add: flushFile_loop_step wf_flush_frame)
  next
    case False
    with frame.prems have "s' = s"
      by (cases "i < numBufs s"; cases "pinCnt (bufDescTable s ! i) = 0")
         (auto simp: flushFile_loop_done flushFile_loop_pinned flushFile_loop_bad)
    with frame.prems show ?thesis by simp
  qed
qed

lemma wf_flushFile: "wf_BufMgr s \<Longrightarrow> wf_BufMgr (snd (flushFile f s))"
  by (cases "flushFile f s") (auto simp: flushFile_def dest: wf_flushFile_loop)

lemma wf_disposePage: "wf_BufMgr s \<Longrightarrow> wf_BufMgr (snd (disposePage f pn s))"
proof -
  assume wf: "wf_BufMgr s"
  have clr: "wf_BufMgr (s\<lparr>bufDescTable := (bufDescTable s)[fr := d]\<rparr>)" for fr d
    using wf by (simp add: wf_BufMgr_def)
  have "wf_BufMgr (case hashTable_lookup (hashTable s) (f, pn) of
                  Inl _ \<Rightarrow> s
                | Inr fr \<Rightarrow>
                    (let s' = s\<lparr>bufDescTable := (bufDescTable s)[fr := BufDesc_clear (bufDescTable s ! fr)]\<rparr>
                     in case hashTable_remove (f, pn) (hashTable s') of
                          Inl _ \<Rightarrow> s'
                        | Inr ht \<Rightarrow> s'\<lparr>hashTable := ht\<rparr>))"
    using wf clr by (auto simp: Let_def split: sum.split intro: wf_remove)
  then show ?thesis
    by (simp add: disposePage_def File_deletePage_def Let_def wf_BufMgr_def)
qed

lemma wf_serve: "wf_BufMgr s \<Longrightarrow> wf_BufMgr (serve r s)"
  by (cases r) (simp_all add: wf_readPage wf_unPinPage wf_allocPage wf_flushFile wf_disposePage)

lemma wf_fold_serve: "wf_BufMgr s \<Longrightarrow> wf_BufMgr (fold serve rs s)"
  by (induction rs arbitrary: s) (simp_all add: wf_serve)

lemma wf_reachable: "wf_BufMgr (reachable bufs dk rs)"
  by (simp add: reachable_def wf_fold_serve wf_BufMgr_new)


text \<open>The two sequences of calls behind the examples \<open>ex_duplicate\<close> and \<open>ex3_g\<close>.\<close>

lemma ex_duplicate_reachable:
  "reachable 2 ex_disk [Fetch 2 1, Release 2 1 False, Fetch 1 1, Flush 1, Fetch 1 1] = ex_duplicate"
  by (simp add: reachable_def ex_pinned_reached ex_clean_reached ex_two_files_reached
        ex_flush_failed_reached ex_duplicate_reached del: One_nat_def)

lemma ex3_g_reachable:
  "reachable 3 ex_disk
     [Fetch 2 1, Release 2 1 False, Fetch 2 7, Fetch 1 1, Release 1 1 False, Flush 1, Fetch 2 8] = ex3_g"
  by (simp add: reachable_def ex3_a_reached ex3_b_reached ex3_c_reached ex3_d_reached
        ex3_e_reached ex3_f_reached ex3_g_reached del: One_nat_def)

subsection \<open>One cached copy per page\<close>

text \<open>
  C1 does not hold of the code. On a pool of two frames with the files 1 and 2: fetch page 1
  of file 2 and release it; fetch page 1 of file 1 and keep it pinned; flush file 1. The
  flush fails with PagePinned at frame 1, but at frame 0 it has already removed the key
  (file 1, page 1) from the page table, although frame 0 holds a page of file 2: the key
  it removed is the entry of frame 1. The next fetch of page 1 of file 1 misses and fills
  frame 0, and now two valid frames hold page 1 of file 1.
\<close>

theorem C1_two_frames_same_page:
  "reachable 2 ex_disk [Fetch 2 1, Release 2 1 False, Fetch 1 1, Flush 1, Fetch 1 1] = ex_duplicate \<and>
   readPage 2 1 (BufMgr_new 2 ex_disk) = (Inr 0, ex_pinned) \<and>
   unPinPage 2 1 False ex_pinned = (Inr (), ex_clean) \<and>
   readPage 1 1 ex_clean = (Inr 1, ex_two_files) \<and>
   flushFile 1 ex_two_files = (Inl PagePinned, ex_flush_failed) \<and>
   readPage 1 1 ex_flush_failed = (Inr 0, ex_duplicate) \<and>
   valid (bufDescTable ex_duplicate ! 0) \<and> valid (bufDescTable ex_duplicate ! 1) \<and>
   (fileH (bufDescTable ex_duplicate ! 0), pageNo (bufDescTable ex_duplicate ! 0)) = (1, 1) \<and>
   (fileH (bufDescTable ex_duplicate ! 1), pageNo (bufDescTable ex_duplicate ! 1)) = (1, 1)"
  by (intro conjI ex_duplicate_reachable ex_pinned_reached ex_clean_reached ex_two_files_reached
        ex_flush_failed_reached ex_duplicate_reached)
     (simp_all add: ex_duplicate_def)

subsection \<open>The bound of the eviction search\<close>

text \<open>
  The loop of \<open>allocBuf\<close> makes at most \<open>2 * numBufs\<close> inspections: its counter starts at 1,
  goes up by one per inspection, and the loop throws once it is above \<open>numBufs * 2\<close>. The
  lemmas below say when that happens, for a pool of fewer than \<open>2 ^ 31\<close> frames (so that
  \<open>numBufs * 2\<close> does not wrap): exactly when every frame is valid and pinned. If some
  frame is not valid or unpinned, the search stops before the bound at a victim, and it
  returns the victim if the key of every valid frame is in the page table; the only other
  way out is the NotFound of the removal.
\<close>

lemma allocBuf_loop_all_pinned:
  "0 < c \<Longrightarrow> \<forall>j<numBufs s. valid (bufDescTable s ! j) \<and> pinCnt (bufDescTable s ! j) \<noteq> 0 \<Longrightarrow>
     fst (allocBuf_loop c s) = Inl BufferExceeded"
proof (induction c s rule: allocBuf_loop_induct)
  case (round count s)
  show ?case
  proof (cases rule: allocBuf_loop_cases [of s count])
    case exceeded
    then show ?thesis by (simp add: allocBuf_loop_exceeded)
  next
    case invalid
    from invalid(1) round.prems(1) have "hand s < numBufs s"
      by (intro hand_less not_exceeded_pos)
    with round.prems(2) invalid show ?thesis
      by auto
  next
    case referenced
    with round.prems round.IH(1) show ?thesis
      by (simp add: allocBuf_loop_referenced)
  next
    case pinned
    with round.prems round.IH(2) show ?thesis
      by (simp add: allocBuf_loop_pinned)
  next
    case evict
    from evict(1) round.prems(1) have "hand s < numBufs s"
      by (intro hand_less not_exceeded_pos)
    with round.prems(2) evict show ?thesis
      by auto
  qed
qed

lemma allocBuf_loop_errors:
  "allocBuf_loop c s = (Inl e, s') \<Longrightarrow> e = BufferExceeded \<or> e = HashNotFound"
proof (induction c s rule: allocBuf_loop_induct)
  case (round count s)
  show ?case
  proof (cases rule: allocBuf_loop_cases [of s count])
    case exceeded
    with round.prems show ?thesis by (simp add: allocBuf_loop_exceeded)
  next
    case invalid
    with round.prems show ?thesis by (simp add: allocBuf_loop_invalid)
  next
    case referenced
    with round.prems round.IH(1) show ?thesis
      by (simp add: allocBuf_loop_referenced)
  next
    case pinned
    with round.prems round.IH(2) show ?thesis
      by (simp add: allocBuf_loop_pinned)
  next
    case evict
    with round.prems show ?thesis
      by (auto simp: allocBuf_loop_evict hashTable_remove_def split: sum.splits option.splits)
  qed
qed

lemma hand_next:
  assumes "0 < numBufs s" "numBufs s < 2 ^ 31" "numBufs s' = numBufs s" "clockHand s' = hand s"
  shows "hand s' = (if hand s + 1 = numBufs s then 0 else hand s + 1)"
proof -
  from assms(1) have h: "hand s < numBufs s" by (rule hand_less)
  with assms(2) have "hand s + 1 < 2 ^ 32" by simp
  then have "(hand s + 1) mod 2 ^ 32 = hand s + 1" by simp
  with h assms(3,4) show ?thesis
    by (auto simp: advanceClock_def)
qed


lemma rounds_needed_step:
  assumes N: "0 < numBufs s" "numBufs s < 2 ^ 31"
    and s': "numBufs s' = numBufs s" "clockHand s' = hand s"
    and j: "j < numBufs s"
    and ref: "valid (bufDescTable s' ! j) \<and> refbit (bufDescTable s' ! j) \<longrightarrow>
              j \<noteq> hand s \<and> valid (bufDescTable s ! j) \<and> refbit (bufDescTable s ! j)"
    and at_hand: "j = hand s \<longrightarrow> valid (bufDescTable s ! j) \<and> refbit (bufDescTable s ! j)"
  shows "rounds_needed j s' + 1 \<le> rounds_needed j s"
proof -
  let ?h = "hand s" and ?n = "numBufs s"
  have h: "?h < ?n" using N(1) by (rule hand_less)
  have h': "hand s' = (if ?h + 1 = ?n then 0 else ?h + 1)"
    using N s' by (rule hand_next)
  show ?thesis
  proof (cases "j = ?h")
    case True
    with at_hand have before: "rounds_needed j s = ?n + 1"
      by (simp add: rounds_needed_def clock_dist_def)
    from True at_hand ref
    have "\<not> (valid (bufDescTable s' ! j) \<and> refbit (bufDescTable s' ! j))"
      by auto
    moreover from True h have "clock_dist j s' = ?n - 1"
      by (auto simp: clock_dist_def h' s')
    ultimately have "rounds_needed j s' = ?n - 1 + 1"
      by (auto simp: rounds_needed_def)
    with before N(1) show ?thesis
      by simp
  next
    case False
    with h j have "clock_dist j s' + 1 = clock_dist j s"
      by (auto simp: clock_dist_def h' s')
    with ref show ?thesis
      by (auto simp: rounds_needed_def s')
  qed
qed

lemma clockHand_second_chance [simp]: "clockHand (second_chance s) = hand s"
  by (simp add: second_chance_def)

lemma refbit_second_chance:
  "refbit (bufDescTable (second_chance s) ! j) \<Longrightarrow>
     hand s < length (bufDescTable s) \<Longrightarrow> j \<noteq> hand s \<and> refbit (bufDescTable s ! j)"
  by (cases "j = hand s") (auto simp: second_chance_def)

lemma allocBuf_loop_finds:
  "numBufs s < 2 ^ 31 \<Longrightarrow> length (bufDescTable s) = numBufs s \<Longrightarrow> j < numBufs s \<Longrightarrow>
   \<not> valid (bufDescTable s ! j) \<or> pinCnt (bufDescTable s ! j) = 0 \<Longrightarrow>
   count + rounds_needed j s \<le> 2 * numBufs s + 1 \<Longrightarrow>
     fst (allocBuf_loop count s) \<noteq> Inl BufferExceeded"
proof (induction count s rule: allocBuf_loop_induct)
  case (round count s)
  from round.prems have pos: "0 < numBufs s" by simp
  then have h: "hand s < numBufs s" by (rule hand_less)
  have "1 \<le> rounds_needed j s"
    by (simp add: rounds_needed_def)
  with round.prems have "count \<le> 2 * numBufs s" by simp
  moreover from round.prems(1) have "(numBufs s * 2) mod 2 ^ 32 = 2 * numBufs s"
    by simp
  ultimately have bound: "\<not> (numBufs s * 2) mod 2 ^ 32 < count"
    by simp
  show ?case
  proof (cases rule: allocBuf_loop_cases [of s count])
    case exceeded
    with bound show ?thesis by simp
  next
    case invalid
    then show ?thesis by (simp add: allocBuf_loop_invalid)
  next
    case referenced
    have "rounds_needed j (second_chance s) + 1 \<le> rounds_needed j s"
    proof (rule rounds_needed_step [OF pos round.prems(1) _ _ round.prems(3)])
      show "valid (bufDescTable (second_chance s) ! j) \<and> refbit (bufDescTable (second_chance s) ! j) \<longrightarrow>
              j \<noteq> hand s \<and> valid (bufDescTable s ! j) \<and> refbit (bufDescTable s ! j)"
        using refbit_second_chance [of s j] h round.prems(2) by auto
      show "j = hand s \<longrightarrow> valid (bufDescTable s ! j) \<and> refbit (bufDescTable s ! j)"
        using referenced by auto
    qed simp_all
    with round.prems have "count + 1 + rounds_needed j (second_chance s) \<le> 2 * numBufs (second_chance s) + 1"
      by simp
    with round.IH(1) [OF referenced] round.prems show ?thesis
      by (simp add: allocBuf_loop_referenced referenced)
  next
    case pinned
    with round.prems(4) have ne: "j \<noteq> hand s" by auto
    have "rounds_needed j (advanceClock s) + 1 \<le> rounds_needed j s"
    proof (rule rounds_needed_step [OF pos round.prems(1) _ _ round.prems(3)])
      show "valid (bufDescTable (advanceClock s) ! j) \<and> refbit (bufDescTable (advanceClock s) ! j) \<longrightarrow>
              j \<noteq> hand s \<and> valid (bufDescTable s ! j) \<and> refbit (bufDescTable s ! j)"
        using ne by simp
      show "j = hand s \<longrightarrow> valid (bufDescTable s ! j) \<and> refbit (bufDescTable s ! j)"
        using ne by simp
    qed simp_all
    with round.prems have "count + 1 + rounds_needed j (advanceClock s) \<le> 2 * numBufs (advanceClock s) + 1"
      by simp
    with round.IH(2) [OF pinned] round.prems show ?thesis
      by (simp add: allocBuf_loop_pinned pinned)
  next
    case evict
    then show ?thesis
      by (auto simp: allocBuf_loop_evict hashTable_remove_def split: sum.splits option.splits)
  qed
qed


lemma rounds_needed_le:
  assumes "j < numBufs s"
  shows "rounds_needed j s \<le> 2 * numBufs s"
proof -
  from assms have "hand s < numBufs s"
    by (intro hand_less) simp
  with assms have "clock_dist j s + 1 \<le> numBufs s"
    by (auto simp: clock_dist_def)
  then show ?thesis
    by (simp add: rounds_needed_def)
qed

lemma allocBuf_exceeded_iff:
  assumes "numBufs s < 2 ^ 31" and "length (bufDescTable s) = numBufs s"
  shows "fst (allocBuf s) = Inl BufferExceeded \<longleftrightarrow>
         (\<forall>j<numBufs s. valid (bufDescTable s ! j) \<and> pinCnt (bufDescTable s ! j) \<noteq> 0)"
proof
  assume ex: "fst (allocBuf s) = Inl BufferExceeded"
  show "\<forall>j<numBufs s. valid (bufDescTable s ! j) \<and> pinCnt (bufDescTable s ! j) \<noteq> 0"
  proof (intro allI impI, rule ccontr)
    fix j assume j: "j < numBufs s"
      and "\<not> (valid (bufDescTable s ! j) \<and> pinCnt (bufDescTable s ! j) \<noteq> 0)"
    then have free: "\<not> valid (bufDescTable s ! j) \<or> pinCnt (bufDescTable s ! j) = 0"
      by simp
    from rounds_needed_le [OF j] have "1 + rounds_needed j s \<le> 2 * numBufs s + 1"
      by simp
    from allocBuf_loop_finds [OF assms j free this] ex show False
      by (simp add: allocBuf_def)
  qed
next
  assume "\<forall>j<numBufs s. valid (bufDescTable s ! j) \<and> pinCnt (bufDescTable s ! j) \<noteq> 0"
  then show "fst (allocBuf s) = Inl BufferExceeded"
    unfolding allocBuf_def by (intro allocBuf_loop_all_pinned) simp_all
qed

lemma allocBuf_loop_entry_found:
  "0 < c \<Longrightarrow>
   \<forall>j<numBufs s. valid (bufDescTable s ! j) \<longrightarrow>
      map_of (hashTable s) (fileH (bufDescTable s ! j), page_number (bufPool s ! j)) \<noteq> None \<Longrightarrow>
     fst (allocBuf_loop c s) \<noteq> Inl HashNotFound"
proof (induction c s rule: allocBuf_loop_induct)
  case (round count s)
  show ?case
  proof (cases rule: allocBuf_loop_cases [of s count])
    case exceeded
    then show ?thesis by (simp add: allocBuf_loop_exceeded)
  next
    case invalid
    then show ?thesis by (simp add: allocBuf_loop_invalid)
  next
    case referenced
    with round.prems round.IH(1) show ?thesis
      by (simp add: allocBuf_loop_referenced)
  next
    case pinned
    with round.prems round.IH(2) show ?thesis
      by (simp add: allocBuf_loop_pinned)
  next
    case evict
    from evict(1) round.prems(1) have "hand s < numBufs s"
      by (intro hand_less not_exceeded_pos)
    with round.prems(2) evict(2)
    have "map_of (hashTable s) (fileH (inspected s), page_number (bufPool s ! hand s)) \<noteq> None"
      by blast
    with evict show ?thesis
      by (auto simp: allocBuf_loop_evict hashTable_remove_def)
  qed
qed

lemma allocBuf_finds_victim:
  assumes "numBufs s < 2 ^ 31" and "length (bufDescTable s) = numBufs s"
    and "\<forall>j<numBufs s. valid (bufDescTable s ! j) \<longrightarrow>
           map_of (hashTable s) (fileH (bufDescTable s ! j), page_number (bufPool s ! j)) \<noteq> None"
    and "j < numBufs s" and "\<not> valid (bufDescTable s ! j) \<or> pinCnt (bufDescTable s ! j) = 0"
  shows "\<exists>fr. fst (allocBuf s) = Inr fr"
proof (cases "fst (allocBuf s)")
  case (Inr fr)
  then show ?thesis by simp
next
  case (Inl e)
  then have "allocBuf_loop 1 s = (Inl e, snd (allocBuf s))"
    by (simp add: allocBuf_def flip: Inl)
  then have "e = BufferExceeded \<or> e = HashNotFound"
    by (rule allocBuf_loop_errors)
  moreover from allocBuf_exceeded_iff [OF assms(1,2)] assms(4,5) Inl have "e \<noteq> BufferExceeded"
    by auto
  moreover from allocBuf_loop_entry_found [of 1 s] assms(3) Inl have "e \<noteq> HashNotFound"
    by (auto simp: allocBuf_def)
  ultimately show ?thesis by simp
qed

text \<open>
  C4 does not hold of the code in one respect: the search can end with neither
  BufferExceeded nor a frame. On a pool of three frames: fetch and release page 1 of file 2
  (frame 0), fetch page 7 of file 2 and keep it (frame 1), fetch and release page 1 of file 1
  (frame 2), flush file 1. The flush fails at the pinned frame 1, after it removed the key
  (file 1, page 1) at frame 0; frame 2 is now valid and unpinned with no entry in the page
  table. The fetch of page 8 takes frame 0. The fetch of page 9 searches: it clears three
  reference bits, passes the pinned frames 0 and 1, and at its fifth inspection, inside the
  bound of six, selects frame 2, clears it, and the removal of its key throws NotFound.
\<close>

theorem C4_victim_without_entry:
  "reachable 3 ex_disk
     [Fetch 2 1, Release 2 1 False, Fetch 2 7, Fetch 1 1, Release 1 1 False, Flush 1, Fetch 2 8] = ex3_g \<and>
   readPage 2 1 (BufMgr_new 3 ex_disk) = (Inr 0, ex3_a) \<and>
   unPinPage 2 1 False ex3_a = (Inr (), ex3_b) \<and>
   readPage 2 7 ex3_b = (Inr 1, ex3_c) \<and>
   readPage 1 1 ex3_c = (Inr 2, ex3_d) \<and>
   unPinPage 1 1 False ex3_d = (Inr (), ex3_e) \<and>
   flushFile 1 ex3_e = (Inl PagePinned, ex3_f) \<and>
   readPage 2 8 ex3_f = (Inr 0, ex3_g) \<and>
   valid (bufDescTable ex3_g ! 2) \<and> pinCnt (bufDescTable ex3_g ! 2) = 0 \<and>
   hashTable_lookup (hashTable ex3_g) (1, 1) = Inl HashNotFound \<and>
   allocBuf ex3_g = (Inl HashNotFound, ex3_h) \<and>
   readPage 2 9 ex3_g = (Inl HashNotFound, ex3_h)"
  by (intro conjI ex3_g_reachable ex3_a_reached ex3_b_reached ex3_c_reached ex3_d_reached ex3_e_reached
        ex3_f_reached ex3_g_reached ex3_h_reached ex3_h_search)
     (simp_all add: ex3_g_def hashTable_lookup_def)

end
